theory Spec2Isabelle
  imports Main "HOL-Library.Word" "HOL-Library.AList"
begin

unbundle bit_operations_syntax

section \<open>Errors raised by the library\<close>

text \<open>
  Every \<^verbatim>\<open>throw\<close> of \<^verbatim>\<open>fon.hpp\<close> and \<^verbatim>\<open>raw_data.cpp\<close> is a constructor of this datatype.
  \<open>LengthError\<close> is the \<^verbatim>\<open>std::length_error\<close> of \<^verbatim>\<open>std::vector::resize\<close>, and
  \<open>DivisionByZero\<close> stands for the undefined division by a thread count of zero.
\<close>

datatype error =
    InvalidZ85Character
  | LengthError
  | InvalidFormat
  | EmptyValue
  | UnsupportedArrayType
  | UnknownType
  | FailedToParseNumber
  | ArrayMustStart
  | StringMustStart
  | ClosingBracketNotFound
  | DivisionByZero

section \<open>Raw binary data and the padded Z85 codec (\<^verbatim>\<open>raw_data.cpp\<close>)\<close>

record RawData =
  raw_data :: "8 word list"
  raw_encoded :: string

definition RawData_default :: RawData where
  "RawData_default = \<lparr>raw_data = [], raw_encoded = []\<rparr>"

definition RawData_of_data :: "8 word list \<Rightarrow> RawData" where
  "RawData_of_data d = \<lparr>raw_data = d, raw_encoded = []\<rparr>"

definition RawData_of_encoded :: "string \<Rightarrow> RawData" where
  "RawData_of_encoded e = \<lparr>raw_data = [], raw_encoded = e\<rparr>"

definition is_packed :: "RawData \<Rightarrow> bool" where
  "is_packed r = (raw_encoded r \<noteq> [])"

definition is_unpacked :: "RawData \<Rightarrow> bool" where
  "is_unpacked r = (raw_data r \<noteq> [])"

definition z85_encode :: string where
  "z85_encode = ''0123456789abcdefghijklmnopqrstuvwxyzABCDEFGHIJKLMNOPQRSTUVWXYZ.-:+=^!/*?&<>()[]{}@%$#''"

definition z85_decode :: "nat list" where
  "z85_decode =
    [255, 68,  255, 84,  83,  82,  72,  255, 75,  76,  70,  65,  255, 63,  62,  69] @
    [0,   1,   2,   3,   4,   5,   6,   7,   8,   9,   64,  255, 73,  66,  74,  71] @
    [81,  36,  37,  38,  39,  40,  41,  42,  43,  44,  45,  46,  47,  48,  49,  50] @
    [51,  52,  53,  54,  55,  56,  57,  58,  59,  60,  61,  77,  255, 78,  67,  255] @
    [255, 10,  11,  12,  13,  14,  15,  16,  17,  18,  19,  20,  21,  22,  23,  24] @
    [25,  26,  27,  28,  29,  30,  31,  32,  33,  34,  35,  79,  255, 80,  255, 255]"

text \<open>
  The five assignments \<^verbatim>\<open>encoded_[write_pos + k] = z85_encode[value % 85]; value /= 85\<close>
  of one group, most significant digit leftmost.
\<close>

definition encode_group :: "32 word \<Rightarrow> string" where
  "encode_group value =
     (let c4 = z85_encode ! unat (value mod 85); v1 = value div 85;
          c3 = z85_encode ! unat (v1 mod 85); v2 = v1 div 85;
          c2 = z85_encode ! unat (v2 mod 85); v3 = v2 div 85;
          c1 = z85_encode ! unat (v3 mod 85); v4 = v3 div 85;
          c0 = z85_encode ! unat v4
      in [c0, c1, c2, c3, c4])"

definition full_block :: "8 word list \<Rightarrow> nat \<Rightarrow> 32 word" where
  "full_block d offset =
     push_bit 24 (ucast (d ! offset)) OR push_bit 16 (ucast (d ! (offset + 1)))
       OR push_bit 8 (ucast (d ! (offset + 2))) OR ucast (d ! (offset + 3))"

definition partial_block :: "8 word list \<Rightarrow> nat \<Rightarrow> nat \<Rightarrow> 32 word" where
  "partial_block d offset remaining =
     fold (\<lambda>i value. push_bit 8 value) [remaining..<4]
       (fold (\<lambda>i value. push_bit 8 value OR ucast (d ! (offset + i))) [0..<remaining] 0)"

definition pack :: "RawData \<Rightarrow> RawData" where
  "pack r =
     (if raw_encoded r \<noteq> [] \<or> raw_data r = [] then r
      else
        let input_len = length (raw_data r);
            padding = (4 - input_len mod 4) mod 4;
            full_blocks = input_len div 4;
            blocks = concat (map (\<lambda>i. encode_group (full_block (raw_data r) (i * 4))) [0..<full_blocks]);
            remaining = input_len mod 4;
            tail = (if remaining > 0
                    then encode_group (partial_block (raw_data r) (full_blocks * 4) remaining)
                           @ [char_of (48 + padding)]
                    else [])
        in \<lparr>raw_data = [], raw_encoded = blocks @ tail\<rparr>)"

text \<open>
  \<^verbatim>\<open>encoded_[k]\<close> in \<^verbatim>\<open>unpack\<close>: inside the string its character; at \<open>k = size()\<close> the
  terminating NUL of \<^verbatim>\<open>std::string\<close>, which the range check rejects, so that no
  index beyond \<open>size()\<close> is ever read.
\<close>

definition char_at :: "string \<Rightarrow> nat \<Rightarrow> char" where
  "char_at s k = (if k < length s then s ! k else CHR 0x00)"

fun decode_group :: "string \<Rightarrow> nat \<Rightarrow> nat list \<Rightarrow> 32 word \<Rightarrow> error + 32 word" where
  "decode_group enc i [] value = Inr value"
| "decode_group enc i (j # js) value =
     (let c = of_char (char_at enc (i + j)) :: nat in
      if c < 32 \<or> c > 127 then Inl InvalidZ85Character
      else let decoded = z85_decode ! (c - 32) in
        if decoded = 255 then Inl InvalidZ85Character
        else decode_group enc i js (value * 85 + of_nat decoded))"

text \<open>\<^verbatim>\<open>if (write_pos < output_len) data_[write_pos++] = b\<close>\<close>

definition put_byte :: "nat \<Rightarrow> 8 word \<Rightarrow> 8 word list \<times> nat \<Rightarrow> 8 word list \<times> nat" where
  "put_byte output_len b st =
     (case st of (d, write_pos) \<Rightarrow>
        if write_pos < output_len then (d[write_pos := b], write_pos + 1) else (d, write_pos))"

definition write_group :: "nat \<Rightarrow> 32 word \<Rightarrow> 8 word list \<times> nat \<Rightarrow> 8 word list \<times> nat" where
  "write_group output_len value st =
     put_byte output_len (ucast (value AND 0xFF))
       (put_byte output_len (ucast (drop_bit 8 value AND 0xFF))
         (put_byte output_len (ucast (drop_bit 16 value AND 0xFF))
           (put_byte output_len (ucast (drop_bit 24 value AND 0xFF)) st)))"

text \<open>
  The decoding loop \<^verbatim>\<open>for (i = 0; i < len; i += 5)\<close> over the list of its offsets. The
  result carries the bytes written so far and the exception, if one was thrown.
\<close>

fun unpack_loop :: "string \<Rightarrow> nat \<Rightarrow> nat list \<Rightarrow> 8 word list \<times> nat \<Rightarrow> 8 word list \<times> error option" where
  "unpack_loop enc output_len [] st = (fst st, None)"
| "unpack_loop enc output_len (i # is) st =
     (case decode_group enc i [0..<5] 0 of
        Inl e \<Rightarrow> (fst st, Some e)
      | Inr value \<Rightarrow> unpack_loop enc output_len is (write_group output_len value st))"

text \<open>
  \<^verbatim>\<open>unpack\<close> returns the object as the call leaves it, with the exception it threw if
  any: \<^verbatim>\<open>data_.resize(output_len)\<close> runs before the loop, and nothing is rolled back
  when the loop throws. \<^verbatim>\<open>(len / 5) * 4 - padding\<close> is computed in \<^verbatim>\<open>size_t\<close>; when it
  wraps below zero, \<^verbatim>\<open>resize\<close> throws \<^verbatim>\<open>std::length_error\<close> and leaves the vector as it was.
\<close>

definition unpack :: "RawData \<Rightarrow> RawData \<times> error option" where
  "unpack r =
     (if raw_data r \<noteq> [] \<or> raw_encoded r = [] then (r, None)
      else
        let len0 = length (raw_encoded r);
            last_c = of_char (raw_encoded r ! (len0 - 1)) :: nat;
            has_padding = (49 \<le> last_c \<and> last_c \<le> 51);
            padding = (if has_padding then last_c - 48 else 0);
            len = (if has_padding then len0 - 1 else len0)
        in if (len div 5) * 4 < padding then (r, Some LengthError)
           else
             let output_len = (len div 5) * 4 - padding;
                 offsets = map (\<lambda>k. k * 5) [0..<(len + 4) div 5]
             in case unpack_loop (raw_encoded r) output_len offsets (replicate output_len 0, 0) of
                  (d, Some e) \<Rightarrow> (r\<lparr>raw_data := d\<rparr>, Some e)
                | (d, None) \<Rightarrow> (\<lparr>raw_data = d, raw_encoded = []\<rparr>, None))"

text \<open>
  The life of a blob: one of the three constructors, then calls of \<^verbatim>\<open>pack\<close> and
  \<^verbatim>\<open>unpack\<close>. \<open>run_calls\<close> is the object after the calls, a caller having caught what
  they threw; \<open>all_completed\<close> says that none of them threw.
\<close>

datatype raw_ctor = Ctor_default | Ctor_data "8 word list" | Ctor_encoded string

fun construct :: "raw_ctor \<Rightarrow> RawData" where
  "construct Ctor_default = RawData_default"
| "construct (Ctor_data d) = RawData_of_data d"
| "construct (Ctor_encoded e) = RawData_of_encoded e"

datatype raw_call = Call_pack | Call_unpack

fun call :: "raw_call \<Rightarrow> RawData \<Rightarrow> RawData \<times> error option" where
  "call Call_pack r = (pack r, None)"
| "call Call_unpack r = unpack r"

fun run_calls :: "raw_call list \<Rightarrow> RawData \<Rightarrow> RawData" where
  "run_calls [] r = r"
| "run_calls (c # cs) r = run_calls cs (fst (call c r))"

fun all_completed :: "raw_call list \<Rightarrow> RawData \<Rightarrow> bool" where
  "all_completed [] r = True"
| "all_completed (c # cs) r = (snd (call c r) = None \<and> all_completed cs (fst (call c r)))"

section \<open>The value model (\<^verbatim>\<open>fon_types.hpp\<close>)\<close>

text \<open>
  \<^verbatim>\<open>FonValue\<close> is the \<^verbatim>\<open>std::variant\<close> of the source, one constructor per alternative.
  Fixed-width integers are machine words, read with \<open>unat\<close> or \<open>sint\<close> according to the
  signedness of the C++ type. The values of \<^verbatim>\<open>float\<close> and \<^verbatim>\<open>double\<close> are kept abstract
  (type parameters \<open>'f\<close> and \<open>'d\<close>). A \<^verbatim>\<open>std::shared_ptr<RawData>\<close> is an optional blob,
  \<open>None\<close> being the null pointer.
\<close>

datatype ('f, 'd) FonValue =
    VByte "8 word"
  | VShort "16 word"
  | VInt "32 word"
  | VUInt "32 word"
  | VLong "64 word"
  | VULong "64 word"
  | VFloat 'f
  | VDouble 'd
  | VBool bool
  | VString string
  | VRaw "RawData option"
  | VByteArray "8 word list"
  | VShortArray "16 word list"
  | VIntArray "32 word list"
  | VUIntArray "32 word list"
  | VLongArray "64 word list"
  | VULongArray "64 word list"
  | VFloatArray "'f list"
  | VDoubleArray "'d list"
  | VBoolArray "bool list"
  | VStringArray "string list"

definition TYPE_BYTE :: char where "TYPE_BYTE = CHR ''e''"
definition TYPE_SHORT :: char where "TYPE_SHORT = CHR ''t''"
definition TYPE_INT :: char where "TYPE_INT = CHR ''i''"
definition TYPE_UINT :: char where "TYPE_UINT = CHR ''u''"
definition TYPE_LONG :: char where "TYPE_LONG = CHR ''l''"
definition TYPE_ULONG :: char where "TYPE_ULONG = CHR ''g''"
definition TYPE_FLOAT :: char where "TYPE_FLOAT = CHR ''f''"
definition TYPE_DOUBLE :: char where "TYPE_DOUBLE = CHR ''d''"
definition TYPE_BOOL :: char where "TYPE_BOOL = CHR ''b''"
definition TYPE_STRING :: char where "TYPE_STRING = CHR ''s''"
definition TYPE_RAW :: char where "TYPE_RAW = CHR ''r''"

text \<open>
  A \<^verbatim>\<open>FonCollection\<close> wraps a \<^verbatim>\<open>std::unordered_map\<close> from keys to values, a \<^verbatim>\<open>FonDump\<close>
  one from ids to collections. Each is represented by the list of its entries, keys
  distinct, in the order in which an iteration visits them; the C++ standard leaves
  that order unspecified, so the entries are read through \<open>map_of\<close> wherever the order
  is not the subject. \<^verbatim>\<open>add\<close> is \<^verbatim>\<open>data_[key] = value\<close>: it replaces the value of a key
  that is present and adds an entry otherwise.
\<close>

type_synonym ('f, 'd) FonCollection = "(string \<times> ('f, 'd) FonValue) list"
type_synonym ('f, 'd) FonDump = "(nat \<times> ('f, 'd) FonCollection) list"

definition collection_add ::
  "string \<Rightarrow> ('f, 'd) FonValue \<Rightarrow> ('f, 'd) FonCollection \<Rightarrow> ('f, 'd) FonCollection" where
  "collection_add key v c = AList.update key v c"

definition dump_add ::
  "nat \<Rightarrow> ('f, 'd) FonCollection \<Rightarrow> ('f, 'd) FonDump \<Rightarrow> ('f, 'd) FonDump" where
  "dump_add ident c d = AList.update ident c d"

text \<open>
  What the code takes from outside the repository: the global switch
  \<^verbatim>\<open>Fon::deserialize_raw_unpack\<close> and the standard library's conversions of floating-point
  values (\<^verbatim>\<open>std::to_chars\<close>, \<^verbatim>\<open>std::from_chars\<close>, which may fail, \<^verbatim>\<open>strtof\<close> and \<^verbatim>\<open>strtod\<close>).
\<close>

record ('f, 'd) env =
  deserialize_raw_unpack :: bool
  to_chars_float :: "'f \<Rightarrow> string"
  to_chars_double :: "'d \<Rightarrow> string"
  from_chars_float :: "string \<Rightarrow> ('f \<times> nat) option"
  from_chars_double :: "string \<Rightarrow> ('d \<times> nat) option"
  strtof :: "string \<Rightarrow> 'f"
  strtod :: "string \<Rightarrow> 'd"

section \<open>Integers as decimal text (\<^verbatim>\<open>std::to_chars\<close>, \<^verbatim>\<open>std::from_chars\<close>)\<close>

definition digit_char :: "nat \<Rightarrow> char" where
  "digit_char d = char_of (48 + d)"

definition is_digit :: "char \<Rightarrow> bool" where
  "is_digit c = (48 \<le> (of_char c :: nat) \<and> (of_char c :: nat) \<le> 57)"

function to_chars_nat :: "nat \<Rightarrow> string" where
  "to_chars_nat n = (if n < 10 then [digit_char n] else to_chars_nat (n div 10) @ [digit_char (n mod 10)])"
  by pat_completeness auto
termination
  by (relation "measure id") auto

declare to_chars_nat.simps [simp del]

definition to_chars_int :: "int \<Rightarrow> string" where
  "to_chars_int i = (if i < 0 then CHR ''-'' # to_chars_nat (nat (- i)) else to_chars_nat (nat i))"

definition digits_value :: "string \<Rightarrow> nat" where
  "digits_value ds = foldl (\<lambda>acc c. acc * 10 + (of_char c - 48)) 0 ds"

text \<open>
  \<^verbatim>\<open>std::from_chars\<close> in base 10: the longest run of digits at the start, after a minus
  sign for a signed type only; an error if there is no digit or the number is not
  representable; otherwise the number and the count of characters read.
\<close>

definition from_chars_unsigned :: "nat \<Rightarrow> string \<Rightarrow> error + (nat \<times> nat)" where
  "from_chars_unsigned max_value s =
     (let ds = takeWhile is_digit s in
      if ds = [] then Inl FailedToParseNumber
      else if digits_value ds > max_value then Inl FailedToParseNumber
      else Inr (digits_value ds, length ds))"

definition from_chars_signed :: "int \<Rightarrow> int \<Rightarrow> string \<Rightarrow> error + (int \<times> nat)" where
  "from_chars_signed min_value max_value s =
     (let negative = (case s of [] \<Rightarrow> False | c # _ \<Rightarrow> c = CHR ''-'');
          ds = takeWhile is_digit (if negative then tl s else s);
          v = (if negative then - int (digits_value ds) else int (digits_value ds))
      in if ds = [] then Inl FailedToParseNumber
         else if v < min_value \<or> max_value < v then Inl FailedToParseNumber
         else Inr (v, length ds + (if negative then 1 else 0)))"

section \<open>The serializer (\<^verbatim>\<open>fon.hpp\<close>)\<close>

definition serialize_unsigned :: "'a::len word \<Rightarrow> string" where
  "serialize_unsigned w = to_chars_nat (unat w)"

definition serialize_signed :: "'a::len word \<Rightarrow> string" where
  "serialize_signed w = to_chars_int (sint w)"

definition serialize_bool :: "bool \<Rightarrow> string" where
  "serialize_bool v = (if v then ''1'' else ''0'')"

text \<open>
  The loops \<^verbatim>\<open>if (i > 0) out += ','; out += element\<close> of the arrays and
  \<^verbatim>\<open>if (!first) result += ','; first = false; ...\<close> of the entries.
\<close>

fun join_comma :: "bool \<Rightarrow> ('a \<Rightarrow> string) \<Rightarrow> 'a list \<Rightarrow> string" where
  "join_comma first f [] = []"
| "join_comma first f (x # xs) = (if first then [] else '','') @ f x @ join_comma False f xs"

definition serialize_array :: "('a \<Rightarrow> string) \<Rightarrow> 'a list \<Rightarrow> string" where
  "serialize_array f arr = ''['' @ join_comma True f arr @ '']''"

definition hex_digit :: "nat \<Rightarrow> char" where
  "hex_digit d = (if d < 10 then char_of (48 + d) else char_of (55 + d))"

text \<open>\<^verbatim>\<open>snprintf(buf, sizeof(buf), "\\u%04X", c)\<close> for a byte \<open>c\<close>.\<close>

definition u_escape :: "nat \<Rightarrow> string" where
  "u_escape c = [CHR 0x5C, CHR ''u'', hex_digit (c div 4096 mod 16), hex_digit (c div 256 mod 16),
                 hex_digit (c div 16 mod 16), hex_digit (c mod 16)]"

definition escape_char :: "char \<Rightarrow> string" where
  "escape_char c =
     (if c = CHR 0x22 then [CHR 0x5C, CHR 0x22]
      else if c = CHR 0x5C then [CHR 0x5C, CHR 0x5C]
      else if c = CHR 0x0A then [CHR 0x5C, CHR ''n'']
      else if c = CHR 0x0D then [CHR 0x5C, CHR ''r'']
      else if c = CHR 0x09 then [CHR 0x5C, CHR ''t'']
      else if c = CHR 0x08 then [CHR 0x5C, CHR ''b'']
      else if c = CHR 0x0C then [CHR 0x5C, CHR ''f'']
      else if (of_char c :: nat) < 32 then u_escape (of_char c)
      else [c])"

definition serialize_string :: "string \<Rightarrow> string" where
  "serialize_string str = [CHR 0x22] @ concat (map escape_char str) @ [CHR 0x22]"

text \<open>
  A raw blob is packed in place before its text is written; the text written is that
  of the packed blob.
\<close>

definition serialize_raw :: "RawData option \<Rightarrow> string" where
  "serialize_raw v =
     [CHR 0x22] @ (case v of None \<Rightarrow> [] | Some raw \<Rightarrow> raw_encoded (pack raw)) @ [CHR 0x22]"

fun serialize_value :: "('f, 'd) env \<Rightarrow> ('f, 'd) FonValue \<Rightarrow> string" where
  "serialize_value E (VByte v) = serialize_unsigned v"
| "serialize_value E (VShort v) = serialize_signed v"
| "serialize_value E (VInt v) = serialize_signed v"
| "serialize_value E (VUInt v) = serialize_unsigned v"
| "serialize_value E (VLong v) = serialize_signed v"
| "serialize_value E (VULong v) = serialize_unsigned v"
| "serialize_value E (VFloat v) = to_chars_float E v"
| "serialize_value E (VDouble v) = to_chars_double E v"
| "serialize_value E (VBool v) = serialize_bool v"
| "serialize_value E (VString v) = serialize_string v"
| "serialize_value E (VRaw v) = serialize_raw v"
| "serialize_value E (VFloatArray v) = serialize_array (to_chars_float E) v"
| "serialize_value E (VDoubleArray v) = serialize_array (to_chars_double E) v"
| "serialize_value E (VIntArray v) = serialize_array serialize_signed v"
| "serialize_value E (VByteArray v) = serialize_array serialize_unsigned v"
| "serialize_value E (VShortArray v) = serialize_array serialize_signed v"
| "serialize_value E (VUIntArray v) = serialize_array serialize_unsigned v"
| "serialize_value E (VLongArray v) = serialize_array serialize_signed v"
| "serialize_value E (VULongArray v) = serialize_array serialize_unsigned v"
| "serialize_value E (VBoolArray v) = serialize_array serialize_bool v"
| "serialize_value E (VStringArray v) = serialize_array serialize_string v"

fun get_type_char :: "('f, 'd) FonValue \<Rightarrow> char" where
  "get_type_char (VByte v) = TYPE_BYTE"
| "get_type_char (VShort v) = TYPE_SHORT"
| "get_type_char (VInt v) = TYPE_INT"
| "get_type_char (VUInt v) = TYPE_UINT"
| "get_type_char (VLong v) = TYPE_LONG"
| "get_type_char (VULong v) = TYPE_ULONG"
| "get_type_char (VFloat v) = TYPE_FLOAT"
| "get_type_char (VDouble v) = TYPE_DOUBLE"
| "get_type_char (VBool v) = TYPE_BOOL"
| "get_type_char (VString v) = TYPE_STRING"
| "get_type_char (VRaw v) = TYPE_RAW"
| "get_type_char (VFloatArray v) = TYPE_FLOAT"
| "get_type_char (VDoubleArray v) = TYPE_DOUBLE"
| "get_type_char (VIntArray v) = TYPE_INT"
| "get_type_char (VByteArray v) = TYPE_BYTE"
| "get_type_char (VShortArray v) = TYPE_SHORT"
| "get_type_char (VUIntArray v) = TYPE_UINT"
| "get_type_char (VLongArray v) = TYPE_LONG"
| "get_type_char (VULongArray v) = TYPE_ULONG"
| "get_type_char (VBoolArray v) = TYPE_BOOL"
| "get_type_char (VStringArray v) = TYPE_STRING"

definition serialize_entry :: "('f, 'd) env \<Rightarrow> string \<times> ('f, 'd) FonValue \<Rightarrow> string" where
  "serialize_entry E kv =
     fst kv @ ''='' @ [get_type_char (snd kv)] @ '':'' @ serialize_value E (snd kv)"

definition serialize_to_string :: "('f, 'd) env \<Rightarrow> ('f, 'd) FonCollection \<Rightarrow> string" where
  "serialize_to_string E collection = join_comma True (serialize_entry E) collection"

section \<open>The parser (\<^verbatim>\<open>fon.hpp\<close>)\<close>

definition is_value_end :: "char \<Rightarrow> bool" where
  "is_value_end c = (c = CHR '','' \<or> c = CHR '']'' \<or> c = CHR 0x0D \<or> c = CHR 0x0A)"

definition find_value_end :: "string \<Rightarrow> nat" where
  "find_value_end d = length (takeWhile (\<lambda>c. \<not> is_value_end c) d)"

text \<open>
  The loop of \<^verbatim>\<open>find_closing_bracket\<close> from index \<open>i\<close> on; \<open>prev\<close> is \<^verbatim>\<open>data[i - 1]\<close>, absent
  at \<open>i = 0\<close>.
\<close>

fun find_closing_bracket_loop :: "string \<Rightarrow> nat \<Rightarrow> char option \<Rightarrow> int \<Rightarrow> bool \<Rightarrow> error + nat" where
  "find_closing_bracket_loop [] i prev depth in_string = Inl ClosingBracketNotFound"
| "find_closing_bracket_loop (c # cs) i prev depth in_string =
     (if c = CHR 0x22 \<and> prev \<noteq> Some (CHR 0x5C)
      then find_closing_bracket_loop cs (i + 1) (Some c) depth (\<not> in_string)
      else if \<not> in_string then
        (if c = CHR ''['' then find_closing_bracket_loop cs (i + 1) (Some c) (depth + 1) in_string
         else if c = CHR '']'' then
           (if depth - 1 = 0 then Inr i
            else find_closing_bracket_loop cs (i + 1) (Some c) (depth - 1) in_string)
         else find_closing_bracket_loop cs (i + 1) (Some c) depth in_string)
      else find_closing_bracket_loop cs (i + 1) (Some c) depth in_string)"

definition find_closing_bracket :: "string \<Rightarrow> error + nat" where
  "find_closing_bracket d = find_closing_bracket_loop d 0 None 0 False"

text \<open>
  The scan for the closing quote: the number of characters passed over before the first
  quote whose predecessor \<open>prev\<close> is not a backslash, or before the end of the input.
\<close>

fun scan_end_quote :: "char \<Rightarrow> string \<Rightarrow> nat" where
  "scan_end_quote prev [] = 0"
| "scan_end_quote prev (c # cs) =
     (if c = CHR 0x22 \<and> prev \<noteq> CHR 0x5C then 0 else Suc (scan_end_quote c cs))"

definition unescape_char :: "char \<Rightarrow> char" where
  "unescape_char c =
     (if c = CHR 0x22 then CHR 0x22
      else if c = CHR 0x5C then CHR 0x5C
      else if c = CHR ''n'' then CHR 0x0A
      else if c = CHR ''r'' then CHR 0x0D
      else if c = CHR ''t'' then CHR 0x09
      else if c = CHR ''b'' then CHR 0x08
      else if c = CHR ''f'' then CHR 0x0C
      else c)"

fun unescape :: "string \<Rightarrow> string" where
  "unescape [] = []"
| "unescape [c] = [c]"
| "unescape (c # c' # cs) =
     (if c = CHR 0x5C then unescape_char c' # unescape cs else c # unescape (c' # cs))"

text \<open>\<^verbatim>\<open>if (consumed < data.size() && data[consumed] == ',') ++consumed\<close>\<close>

definition consume_comma :: "string \<Rightarrow> nat \<Rightarrow> nat" where
  "consume_comma d consumed =
     (if consumed < length d \<and> d ! consumed = CHR '','' then consumed + 1 else consumed)"

text \<open>\<^verbatim>\<open>parse_string\<close> is only called on non-empty input.\<close>

definition parse_string :: "string \<Rightarrow> error + (string \<times> nat)" where
  "parse_string d =
     (case d of
        [] \<Rightarrow> Inl StringMustStart
      | c0 # cs \<Rightarrow>
          if c0 \<noteq> CHR 0x22 then Inl StringMustStart
          else
            let end_quote = 1 + scan_end_quote c0 cs;
                content = take (end_quote - 1) (drop 1 d)
            in if CHR 0x5C \<notin> set content then Inr (content, consume_comma d (end_quote + 1))
               else Inr (unescape content, consume_comma d (end_quote + 1)))"

text \<open>
  \<^verbatim>\<open>parse_number<T>\<close> for the integer types (the word length is the template argument)
  and for the two floating-point types, which never fail.
\<close>

definition parse_unsigned :: "string \<Rightarrow> error + ('a::len word \<times> nat)" where
  "parse_unsigned d =
     (case from_chars_unsigned (2 ^ LENGTH('a) - 1) d of
        Inl e \<Rightarrow> Inl e
      | Inr (n, c) \<Rightarrow> Inr (word_of_nat n, c))"

definition parse_signed :: "string \<Rightarrow> error + ('a::len word \<times> nat)" where
  "parse_signed d =
     (case from_chars_signed (- (2 ^ (LENGTH('a) - 1))) (2 ^ (LENGTH('a) - 1) - 1) d of
        Inl e \<Rightarrow> Inl e
      | Inr (i, c) \<Rightarrow> Inr (word_of_int i, c))"

definition parse_float :: "('f, 'd) env \<Rightarrow> string \<Rightarrow> error + ('f \<times> nat)" where
  "parse_float E d =
     (case from_chars_float E d of
        Some r \<Rightarrow> Inr r
      | None \<Rightarrow> let end_pos = find_value_end d in Inr (strtof E (take end_pos d), end_pos))"

definition parse_double :: "('f, 'd) env \<Rightarrow> string \<Rightarrow> error + ('d \<times> nat)" where
  "parse_double E d =
     (case from_chars_double E d of
        Some r \<Rightarrow> Inr r
      | None \<Rightarrow> let end_pos = find_value_end d in Inr (strtod E (take end_pos d), end_pos))"

text \<open>\<^verbatim>\<open>if (pos < size && s[pos] == ',') ++pos\<close> on the text that remains from \<open>pos\<close> on.\<close>

definition skip_comma :: "string \<Rightarrow> string" where
  "skip_comma s = (case s of [] \<Rightarrow> [] | c # cs \<Rightarrow> if c = CHR '','' then cs else s)"

text \<open>
  The element loop of \<^verbatim>\<open>parse_array\<close> on \<^verbatim>\<open>content.substr(pos)\<close>. An element parser that
  reads nothing before a character other than a comma leaves \<open>pos\<close> where it is, and the
  loop does not end: the result is then \<open>None\<close>.
\<close>

partial_function (option) parse_array_loop ::
  "(string \<Rightarrow> error + ('a \<times> nat)) \<Rightarrow> string \<Rightarrow> 'a list \<Rightarrow> (error + 'a list) option" where
  "parse_array_loop p content result =
     (if content = [] then Some (Inr result)
      else case p content of
             Inl e \<Rightarrow> Some (Inl e)
           | Inr vc \<Rightarrow> parse_array_loop p (skip_comma (drop (snd vc) content)) (result @ [fst vc]))"

definition parse_array ::
  "(string \<Rightarrow> error + ('a \<times> nat)) \<Rightarrow> string \<Rightarrow> (error + ('a list \<times> nat)) option" where
  "parse_array p d =
     (case d of
        [] \<Rightarrow> Some (Inl ArrayMustStart)
      | c0 # cs \<Rightarrow>
          if c0 \<noteq> CHR ''['' then Some (Inl ArrayMustStart)
          else case find_closing_bracket d of
                 Inl e \<Rightarrow> Some (Inl e)
               | Inr close \<Rightarrow>
                   (case parse_array_loop p (take (close - 1) (drop 1 d)) [] of
                      None \<Rightarrow> None
                    | Some (Inl e) \<Rightarrow> Some (Inl e)
                    | Some (Inr result) \<Rightarrow> Some (Inr (result, consume_comma d (close + 1)))))"

definition array_value ::
  "('a list \<Rightarrow> ('f, 'd) FonValue) \<Rightarrow> (error + ('a list \<times> nat)) option
     \<Rightarrow> (error + (('f, 'd) FonValue \<times> nat)) option" where
  "array_value mk r =
     (case r of
        None \<Rightarrow> None
      | Some (Inl e) \<Rightarrow> Some (Inl e)
      | Some (Inr vc) \<Rightarrow> Some (Inr (mk (fst vc), snd vc)))"

definition scalar_value ::
  "('a \<Rightarrow> ('f, 'd) FonValue) \<Rightarrow> nat \<Rightarrow> error + ('a \<times> nat)
     \<Rightarrow> (error + (('f, 'd) FonValue \<times> nat)) option" where
  "scalar_value mk consumed r =
     (case r of
        Inl e \<Rightarrow> Some (Inl e)
      | Inr vc \<Rightarrow> Some (Inr (mk (fst vc), consumed)))"

text \<open>
  In the boolean case \<^verbatim>\<open>value_str\<close> is a view of \<^verbatim>\<open>data\<close> from its start, so
  \<^verbatim>\<open>value_str[0]\<close> is the first character of \<^verbatim>\<open>data\<close>, which is not empty.
\<close>

definition parse_value ::
  "('f, 'd) env \<Rightarrow> string \<Rightarrow> char \<Rightarrow> (error + (('f, 'd) FonValue \<times> nat)) option" where
  "parse_value E d type_char =
     (case d of
        [] \<Rightarrow> Some (Inl EmptyValue)
      | c0 # cs \<Rightarrow>
          if c0 = CHR ''['' then
            (if type_char = TYPE_BYTE then array_value VByteArray (parse_array parse_unsigned d)
             else if type_char = TYPE_SHORT then array_value VShortArray (parse_array parse_signed d)
             else if type_char = TYPE_INT then array_value VIntArray (parse_array parse_signed d)
             else if type_char = TYPE_UINT then array_value VUIntArray (parse_array parse_unsigned d)
             else if type_char = TYPE_LONG then array_value VLongArray (parse_array parse_signed d)
             else if type_char = TYPE_ULONG then array_value VULongArray (parse_array parse_unsigned d)
             else if type_char = TYPE_FLOAT then array_value VFloatArray (parse_array (parse_float E) d)
             else if type_char = TYPE_DOUBLE then array_value VDoubleArray (parse_array (parse_double E) d)
             else Some (Inl UnsupportedArrayType))
          else if type_char = TYPE_STRING then
            (case parse_string d of
               Inl e \<Rightarrow> Some (Inl e)
             | Inr sc \<Rightarrow> Some (Inr (VString (fst sc), snd sc)))
          else if type_char = TYPE_RAW then
            (case parse_string d of
               Inl e \<Rightarrow> Some (Inl e)
             | Inr sc \<Rightarrow>
                 if deserialize_raw_unpack E then
                   (case unpack (RawData_of_encoded (fst sc)) of
                      (raw, Some e) \<Rightarrow> Some (Inl e)
                    | (raw, None) \<Rightarrow> Some (Inr (VRaw (Some raw), snd sc)))
                 else Some (Inr (VRaw (Some (RawData_of_encoded (fst sc))), snd sc)))
          else
            let end_pos = find_value_end d;
                value_str = take end_pos d;
                consumed = consume_comma d end_pos
            in if type_char = TYPE_BYTE then scalar_value VByte consumed (parse_unsigned value_str)
               else if type_char = TYPE_SHORT then scalar_value VShort consumed (parse_signed value_str)
               else if type_char = TYPE_INT then scalar_value VInt consumed (parse_signed value_str)
               else if type_char = TYPE_UINT then scalar_value VUInt consumed (parse_unsigned value_str)
               else if type_char = TYPE_LONG then scalar_value VLong consumed (parse_signed value_str)
               else if type_char = TYPE_ULONG then scalar_value VULong consumed (parse_unsigned value_str)
               else if type_char = TYPE_FLOAT then scalar_value VFloat consumed (parse_float E value_str)
               else if type_char = TYPE_DOUBLE then scalar_value VDouble consumed (parse_double E value_str)
               else if type_char = TYPE_BOOL then Some (Inr (VBool (c0 \<noteq> CHR ''0''), consumed))
               else Some (Inl UnknownType))"

text \<open>\<^verbatim>\<open>line.find('=', pos)\<close> on the text that remains from \<open>pos\<close> on.\<close>

definition find_char :: "char \<Rightarrow> string \<Rightarrow> nat option" where
  "find_char c s = (if c \<in> set s then Some (length (takeWhile (\<lambda>x. x \<noteq> c) s)) else None)"

text \<open>
  The loop of \<^verbatim>\<open>deserialize_line\<close>; \<open>line\<close> is \<^verbatim>\<open>line.substr(pos)\<close>, which is all the loop
  reads. The result is \<open>None\<close> when the parse of a value does not return.
\<close>

partial_function (option) deserialize_loop ::
  "('f, 'd) env \<Rightarrow> string \<Rightarrow> ('f, 'd) FonCollection \<Rightarrow> (error + ('f, 'd) FonCollection) option" where
  "deserialize_loop E line collection =
     (if line = [] then Some (Inr collection)
      else case find_char (CHR ''='') line of
             None \<Rightarrow> Some (Inr collection)
           | Some eq_pos \<Rightarrow>
               if length (drop (eq_pos + 1) line) < 2 \<or> drop (eq_pos + 1) line ! 1 \<noteq> CHR '':''
               then Some (Inl InvalidFormat)
               else case parse_value E (drop (eq_pos + 3) line) (line ! (eq_pos + 1)) of
                      None \<Rightarrow> None
                    | Some (Inl e) \<Rightarrow> Some (Inl e)
                    | Some (Inr vc) \<Rightarrow>
                        deserialize_loop E (skip_comma (drop (snd vc) (drop (eq_pos + 3) line)))
                          (collection_add (take eq_pos line) (fst vc) collection))"

definition deserialize_line ::
  "('f, 'd) env \<Rightarrow> string \<Rightarrow> (error + ('f, 'd) FonCollection) option" where
  "deserialize_line E line = deserialize_loop E line []"

section \<open>The parallel orchestrator (\<^verbatim>\<open>fon.hpp\<close>)\<close>

text \<open>
  \<^verbatim>\<open>if (max_threads <= 0) max_threads = std::thread::hardware_concurrency()\<close>; the
  hardware's answer is a parameter, and it may be zero.
\<close>

definition resolve_threads :: "int \<Rightarrow> nat \<Rightarrow> nat" where
  "resolve_threads max_threads hardware_concurrency =
     (if max_threads \<le> 0 then hardware_concurrency else nat max_threads)"

text \<open>
  The launch loop: task \<open>t\<close> gets the index range from \<open>t * chunk_size\<close> up to
  \<open>min (t * chunk_size + chunk_size) n\<close>, and the loop breaks at the first range that
  starts at or beyond \<open>n\<close>. The list holds the tasks in launch order.
\<close>

definition make_tasks :: "nat \<Rightarrow> nat \<Rightarrow> (nat \<times> nat) list" where
  "make_tasks n max_threads =
     (let chunk_size = (n + max_threads - 1) div max_threads in
      takeWhile (\<lambda>task. fst task < n)
        (map (\<lambda>t. (t * chunk_size, min (t * chunk_size + chunk_size) n)) [0..<max_threads]))"

text \<open>
  One task running \<^verbatim>\<open>for (i = start; i < end; ++i)\<close> over a shared buffer. \<open>work i\<close> is
  what the loop body computes at index \<open>i\<close>: it does not return (\<open>None\<close>), throws, or
  yields the value to store in slot \<open>i\<close>, if any. A task ends with the first exception,
  which its future keeps.
\<close>

fun run_task ::
  "(nat \<Rightarrow> (error + 'b option) option) \<Rightarrow> nat list \<Rightarrow> 'b list \<Rightarrow> ('b list \<times> error option) option" where
  "run_task work [] buf = Some (buf, None)"
| "run_task work (i # is) buf =
     (case work i of
        None \<Rightarrow> None
      | Some (Inl e) \<Rightarrow> Some (buf, Some e)
      | Some (Inr None) \<Rightarrow> run_task work is buf
      | Some (Inr (Some v)) \<Rightarrow> run_task work is (buf[i := v]))"

text \<open>
  The tasks run concurrently on disjoint index ranges. Where a task writes nothing but
  the slots of its range, as the tasks of the loader do (\<^verbatim>\<open>deserialize_line\<close> builds its
  record from the text of its line alone), the run is given by the order in which the
  tasks complete: a schedule lists them in that order, and each completed task leaves
  its outcome in its future (a map from the task's launch index).
\<close>

fun run_schedule ::
  "(nat \<Rightarrow> (error + 'b option) option) \<Rightarrow> (nat \<times> nat) list \<Rightarrow> nat list
     \<Rightarrow> 'b list \<times> (nat \<rightharpoonup> error option) \<Rightarrow> ('b list \<times> (nat \<rightharpoonup> error option)) option" where
  "run_schedule work tasks [] st = Some st"
| "run_schedule work tasks (t # ts) st =
     (case run_task work [fst (tasks ! t)..<snd (tasks ! t)] (fst st) of
        None \<Rightarrow> None
      | Some (buf, outcome) \<Rightarrow> run_schedule work tasks ts (buf, (snd st)(t \<mapsto> outcome)))"

definition valid_schedule :: "(nat \<times> nat) list \<Rightarrow> nat list \<Rightarrow> bool" where
  "valid_schedule tasks schedule = (distinct schedule \<and> set schedule = {0..<length tasks})"

text \<open>
  \<^verbatim>\<open>for (auto& f : futures) f.get()\<close>: the futures are visited in launch order, and the
  first one that holds an exception rethrows it. A future that is never completed
  blocks the caller for ever.
\<close>

fun join_futures :: "(nat \<rightharpoonup> error option) \<Rightarrow> nat list \<Rightarrow> error option option" where
  "join_futures futures [] = Some None"
| "join_futures futures (t # ts) =
     (case futures t of
        None \<Rightarrow> None
      | Some (Some e) \<Rightarrow> Some (Some e)
      | Some None \<Rightarrow> join_futures futures ts)"

text \<open>
  The fan-out and join of \<^verbatim>\<open>deserialize_from_file_parallel\<close> (the branch without
  \<^verbatim>\<open>_MSC_VER\<close>). The division by a thread count of zero is undefined in C++ and is
  reported as an error. \<^verbatim>\<open>serialize_to_file_parallel\<close> launches and joins its workers by
  the same lines of code; its workers also write to the blobs of the dump, and their
  run is given step by step further down.
\<close>

definition fan_out ::
  "(nat \<Rightarrow> (error + 'b option) option) \<Rightarrow> nat \<Rightarrow> nat \<Rightarrow> nat list \<Rightarrow> 'b list
     \<Rightarrow> (error + 'b list) option" where
  "fan_out work n max_threads schedule buf =
     (if max_threads = 0 then Some (Inl DivisionByZero)
      else
        case run_schedule work (make_tasks n max_threads) schedule (buf, Map.empty) of
          None \<Rightarrow> None
        | Some (buf', futures) \<Rightarrow>
            (case join_futures futures [0..<length (make_tasks n max_threads)] of
               None \<Rightarrow> None
             | Some (Some e) \<Rightarrow> Some (Inl e)
             | Some None \<Rightarrow> Some (Inr buf')))"

text \<open>
  The indices of task \<open>t\<close>, and what a task leaves in its future: whether it ends, and
  with which exception. The latter is \<open>run_task\<close> without the buffer.
\<close>

definition task_range :: "(nat \<times> nat) list \<Rightarrow> nat \<Rightarrow> nat list" where
  "task_range tasks t = [fst (tasks ! t)..<snd (tasks ! t)]"

fun task_outcome :: "(nat \<Rightarrow> (error + 'b option) option) \<Rightarrow> nat list \<Rightarrow> error option option" where
  "task_outcome work [] = Some None"
| "task_outcome work (i # is) =
     (case work i of
        None \<Rightarrow> None
      | Some (Inl e) \<Rightarrow> Some (Some e)
      | Some (Inr w) \<Rightarrow> task_outcome work is)"

text \<open>
  Two notions for the proofs about the shared buffer: slot \<open>i\<close> holds what the loop body
  stores at \<open>i\<close> (\<open>slot_ok\<close>), and the invariant of a buffer \<open>b\<close> that started as \<open>buf0\<close>
  after the indices in \<open>S\<close> have been worked on (\<open>buf_inv\<close>).
\<close>

definition slot_ok :: "(nat \<Rightarrow> (error + 'b option) option) \<Rightarrow> 'b list \<Rightarrow> 'b list \<Rightarrow> nat \<Rightarrow> bool" where
  "slot_ok work buf0 b i =
     (\<exists>w. work i = Some (Inr w) \<and> b ! i = (case w of None \<Rightarrow> buf0 ! i | Some v \<Rightarrow> v))"

definition buf_inv ::
  "(nat \<Rightarrow> (error + 'b option) option) \<Rightarrow> 'b list \<Rightarrow> 'b list \<Rightarrow> nat set \<Rightarrow> bool" where
  "buf_inv work buf0 b S =
     (length b = length buf0
      \<and> (\<forall>i < length buf0. b ! i = buf0 ! i \<or> work i = Some (Inr (Some (b ! i))))
      \<and> (\<forall>i \<in> S. i < length buf0 \<longrightarrow> slot_ok work buf0 b i))"

text \<open>
  \<^verbatim>\<open>serialize_to_file_parallel\<close>. The records of a dump hold their raw blobs through
  \<^verbatim>\<open>std::shared_ptr\<close>, so two records may hold one blob, and \<^verbatim>\<open>serialize_value\<close> packs a
  blob in place (through a \<^verbatim>\<open>const_cast\<close>) from whichever worker reaches it. Such a value
  is the address of its blob in a heap of blobs (\<open>Shared\<close>); any other value, and a blob
  that one record alone holds, is a value as before (\<open>Owned\<close>).
\<close>

datatype ('f, 'd) DumpValue = Owned "('f, 'd) FonValue" | Shared nat

type_synonym ('f, 'd) DumpCollection = "(string \<times> ('f, 'd) DumpValue) list"
type_synonym ('f, 'd) SharedDump = "(nat \<times> ('f, 'd) DumpCollection) list"

text \<open>
  What a worker does to memory, step by step. \<open>Append\<close> adds text to the string that
  \<^verbatim>\<open>serialize_to_string\<close> builds, which the worker owns. \<open>Pack_enter\<close> is \<^verbatim>\<open>pack\<close> up to
  \<^verbatim>\<open>encoded_.resize(output_len)\<close>, \<open>Pack_fill\<close> is the rest of \<^verbatim>\<open>pack\<close> (the loops that write
  \<^verbatim>\<open>encoded_\<close>, then \<^verbatim>\<open>data_.clear()\<close>), and \<open>Append_encoded\<close> is \<^verbatim>\<open>out += raw.encoded()\<close>, on the
  blob at the given address. \<open>Store_line\<close> is \<^verbatim>\<open>lines[i] = ...\<close> with the finished string.
\<close>

datatype step =
    Append string
  | Pack_enter nat
  | Pack_fill nat
  | Append_encoded nat
  | Store_line nat

fun value_steps :: "('f, 'd) env \<Rightarrow> ('f, 'd) DumpValue \<Rightarrow> step list" where
  "value_steps E (Owned v) = [Append (serialize_value E v)]"
| "value_steps E (Shared a) =
     [Append [CHR 0x22], Pack_enter a, Pack_fill a, Append_encoded a, Append [CHR 0x22]]"

fun dump_type_char :: "('f, 'd) DumpValue \<Rightarrow> char" where
  "dump_type_char (Owned v) = get_type_char v"
| "dump_type_char (Shared a) = TYPE_RAW"

text \<open>The loop of \<^verbatim>\<open>serialize_to_string\<close> over the entries of a record.\<close>

fun collection_steps :: "('f, 'd) env \<Rightarrow> bool \<Rightarrow> ('f, 'd) DumpCollection \<Rightarrow> step list" where
  "collection_steps E first [] = []"
| "collection_steps E first (kv # rest) =
     Append ((if first then [] else '','') @ fst kv @ ''='' @ [dump_type_char (snd kv)] @ '':'')
       # value_steps E (snd kv) @ collection_steps E False rest"

text \<open>The task \<^verbatim>\<open>for (i = start; i < end; ++i) lines[i] = serialize_to_string(*entries[i].second)\<close>.\<close>

definition task_steps :: "('f, 'd) env \<Rightarrow> ('f, 'd) SharedDump \<Rightarrow> nat \<times> nat \<Rightarrow> step list" where
  "task_steps E entries task =
     concat (map (\<lambda>i. collection_steps E True (snd (entries ! i)) @ [Store_line i])
               [fst task..<snd task])"

text \<open>
  \<^verbatim>\<open>pack\<close> in two steps. The first is the guard and, past it, the computation of
  \<^verbatim>\<open>output_len\<close> and \<^verbatim>\<open>encoded_.resize(output_len)\<close>, which fills the string with NUL
  characters; it tells whether the guard was passed. The second writes the text
  computed from \<^verbatim>\<open>data_\<close> and clears \<^verbatim>\<open>data_\<close>.
\<close>

definition pack_enter :: "RawData \<Rightarrow> RawData \<times> bool" where
  "pack_enter r =
     (if raw_encoded r \<noteq> [] \<or> raw_data r = [] then (r, False)
      else
        let input_len = length (raw_data r);
            padding = (4 - input_len mod 4) mod 4;
            padded_len = input_len + padding;
            output_len = (padded_len div 4) * 5 + (if padding > 0 then 1 else 0)
        in (r\<lparr>raw_encoded := replicate output_len (CHR 0x00)\<rparr>, True))"

definition pack_fill :: "RawData \<Rightarrow> RawData" where
  "pack_fill r = pack (RawData_of_data (raw_data r))"

text \<open>
  The memory that the workers share (the blobs and the vector \<^verbatim>\<open>lines\<close>), and what a
  worker owns: the steps it has still to do, the string it is building, and whether it
  is inside \<^verbatim>\<open>pack\<close>, past the guard.
\<close>

record memory =
  blobs :: "RawData list"
  line_buf :: "string list"

record worker =
  steps_left :: "step list"
  result_buf :: string
  in_pack :: bool

fun exec :: "step \<Rightarrow> memory \<Rightarrow> worker \<Rightarrow> memory \<times> worker" where
  "exec (Append s) m w = (m, w\<lparr>result_buf := result_buf w @ s\<rparr>)"
| "exec (Pack_enter a) m w =
     (case pack_enter (blobs m ! a) of
        (r, passed) \<Rightarrow> (m\<lparr>blobs := (blobs m)[a := r]\<rparr>, w\<lparr>in_pack := passed\<rparr>))"
| "exec (Pack_fill a) m w =
     (if in_pack w
      then (m\<lparr>blobs := (blobs m)[a := pack_fill (blobs m ! a)]\<rparr>, w\<lparr>in_pack := False\<rparr>)
      else (m, w))"
| "exec (Append_encoded a) m w = (m, w\<lparr>result_buf := result_buf w @ raw_encoded (blobs m ! a)\<rparr>)"
| "exec (Store_line i) m w = (m\<lparr>line_buf := (line_buf m)[i := result_buf w]\<rparr>, w\<lparr>result_buf := []\<rparr>)"

text \<open>
  The workers run concurrently: a schedule lists, step by step, the worker that moves
  next. A worker that has finished does nothing more.
\<close>

definition run_step :: "nat \<Rightarrow> memory \<times> worker list \<Rightarrow> memory \<times> worker list" where
  "run_step t st =
     (case st of (m, ws) \<Rightarrow>
        if t < length ws then
          (case steps_left (ws ! t) of
             [] \<Rightarrow> st
           | s # rest \<Rightarrow>
               (case exec s m ((ws ! t)\<lparr>steps_left := rest\<rparr>) of (m', w') \<Rightarrow> (m', ws[t := w'])))
        else st)"

definition write_lines :: "string list \<Rightarrow> string" where
  "write_lines lines = concat (map (\<lambda>line. line @ [CHR 0x0A]) lines)"

text \<open>
  The result is the text written to the file, which is taken to open. The join waits
  for every worker: under a schedule that leaves a worker unfinished the call does not
  return. No step of a worker throws. The division by a thread count of zero is
  undefined in C++ and is reported as an error.
\<close>

definition serialize_to_file_parallel ::
  "('f, 'd) env \<Rightarrow> ('f, 'd) SharedDump \<Rightarrow> RawData list \<Rightarrow> int \<Rightarrow> nat \<Rightarrow> nat list
     \<Rightarrow> (error + string) option" where
  "serialize_to_file_parallel E dump heap max_threads hardware_concurrency schedule =
     (let threads = resolve_threads max_threads hardware_concurrency;
          entries = sort_key fst dump
      in if threads = 0 then Some (Inl DivisionByZero)
         else
           let tasks = make_tasks (length entries) threads;
               workers = map (\<lambda>task. \<lparr>steps_left = task_steps E entries task,
                                        result_buf = [], in_pack = False\<rparr>) tasks;
               final = fold run_step schedule
                         (\<lparr>blobs = heap, line_buf = replicate (length entries) []\<rparr>, workers)
           in if list_all (\<lambda>w. steps_left w = []) (snd final)
              then Some (Inr (write_lines (line_buf (fst final))))
              else None)"

definition serialize_to_file ::
  "('f, 'd) env \<Rightarrow> ('f, 'd) SharedDump \<Rightarrow> RawData list \<Rightarrow> int \<Rightarrow> nat \<Rightarrow> nat list
     \<Rightarrow> (error + string) option" where
  "serialize_to_file = serialize_to_file_parallel"

text \<open>
  The line splitter of \<^verbatim>\<open>deserialize_from_file_parallel\<close>, on the content read from
  the file, which is taken to open; \<open>cur\<close> is the text from \<open>start\<close> up to the current
  position.
\<close>

fun split_lines :: "string \<Rightarrow> string \<Rightarrow> string list" where
  "split_lines [] cur = (if cur \<noteq> [] then [cur] else [])"
| "split_lines [c] cur =
     (if c = CHR 0x0A \<or> c = CHR 0x0D then (if cur \<noteq> [] then [cur] else [])
      else [cur @ [c]])"
| "split_lines (c # c' # cs) cur =
     (if c = CHR 0x0A \<or> c = CHR 0x0D then
        (if cur \<noteq> [] then [cur] else [])
          @ (if c = CHR 0x0D \<and> c' = CHR 0x0A then split_lines cs [] else split_lines (c' # cs) [])
      else split_lines (c' # cs) (cur @ [c]))"

definition deserialize_work ::
  "('f, 'd) env \<Rightarrow> string list \<Rightarrow> nat \<Rightarrow> (error + ('f, 'd) FonCollection option) option" where
  "deserialize_work E lines i =
     (if lines ! i \<noteq> [] then
        (case deserialize_line E (lines ! i) of
           None \<Rightarrow> None
         | Some (Inl e) \<Rightarrow> Some (Inl e)
         | Some (Inr c) \<Rightarrow> Some (Inr (Some c)))
      else Some (Inr None))"

text \<open>The last loop: \<^verbatim>\<open>if (collections[i].size() > 0) dump.add(i, collections[i])\<close>.\<close>

definition build_dump :: "('f, 'd) FonCollection list \<Rightarrow> ('f, 'd) FonDump" where
  "build_dump collections =
     fold (\<lambda>i dump. if collections ! i \<noteq> [] then dump_add i (collections ! i) dump else dump)
       [0..<length collections] []"

definition deserialize_from_file_parallel ::
  "('f, 'd) env \<Rightarrow> string \<Rightarrow> int \<Rightarrow> nat \<Rightarrow> nat list \<Rightarrow> (error + ('f, 'd) FonDump) option" where
  "deserialize_from_file_parallel E content max_threads hardware_concurrency schedule =
     (let lines = split_lines content [] in
      case fan_out (deserialize_work E lines) (length lines)
             (resolve_threads max_threads hardware_concurrency) schedule
             (replicate (length lines) []) of
        None \<Rightarrow> None
      | Some (Inl e) \<Rightarrow> Some (Inl e)
      | Some (Inr collections) \<Rightarrow> Some (Inr (build_dump collections)))"

definition deserialize_from_file ::
  "('f, 'd) env \<Rightarrow> string \<Rightarrow> int \<Rightarrow> nat \<Rightarrow> nat list \<Rightarrow> (error + ('f, 'd) FonDump) option" where
  "deserialize_from_file = deserialize_from_file_parallel"

section \<open>The lines of a file as the specification counts them\<close>

text \<open>
  The specification's reading of a file, for comparison with \<open>split_lines\<close>: every line
  terminator (LF, CR, or CR LF as one) ends a line, empty or not, so that a line's
  index is its position in the file.
\<close>

fun spec_lines :: "string \<Rightarrow> string \<Rightarrow> string list" where
  "spec_lines [] cur = (if cur \<noteq> [] then [cur] else [])"
| "spec_lines [c] cur = (if c = CHR 0x0A \<or> c = CHR 0x0D then [cur] else [cur @ [c]])"
| "spec_lines (c # c' # cs) cur =
     (if c = CHR 0x0A \<or> c = CHR 0x0D then
        cur # (if c = CHR 0x0D \<and> c' = CHR 0x0A then spec_lines cs [] else spec_lines (c' # cs) [])
      else spec_lines (c' # cs) (cur @ [c]))"

section \<open>The records that the round trip covers\<close>

text \<open>
  The keys, texts and values for which writing a record and reading it back is proved
  below. A key has no \<open>=\<close>, and a key other than the first does not start with a comma.
  A text has no control byte below 32 other than newline, carriage return, tab,
  backspace and form feed, and does not end with a backslash.
\<close>

definition round_trip_text :: "string \<Rightarrow> bool" where
  "round_trip_text s =
     ((\<forall>c \<in> set s. 32 \<le> (of_char c :: nat)
          \<or> c = CHR 0x0A \<or> c = CHR 0x0D \<or> c = CHR 0x09 \<or> c = CHR 0x08 \<or> c = CHR 0x0C)
      \<and> (s = [] \<or> last s \<noteq> CHR 0x5C))"

definition starts_with_comma :: "string \<Rightarrow> bool" where
  "starts_with_comma k = (case k of [] \<Rightarrow> False | c # cs \<Rightarrow> c = CHR '','')"

definition round_trip_keys :: "('f, 'd) FonCollection \<Rightarrow> bool" where
  "round_trip_keys c =
     ((\<forall>kv \<in> set c. CHR ''='' \<notin> set (fst kv)) \<and> (\<forall>kv \<in> set (tl c). \<not> starts_with_comma (fst kv)))"

text \<open>
  The standard library writes and reads the floating-point values, so what it does is
  a condition on the value at hand. For a scalar: its text is not empty, does not open
  an array and holds none of the characters that end a value, and the text alone is
  read back as the value. For the elements of an array: no text is empty or holds a
  character that ends a value, a quote or an opening bracket, and each text, followed
  by the texts of the later elements, is read back as the element, the count of
  characters read being the length of the text.
\<close>

definition value_text :: "string \<Rightarrow> bool" where
  "value_text t = (t \<noteq> [] \<and> hd t \<noteq> CHR ''['' \<and> (\<forall>c \<in> set t. \<not> is_value_end c))"

definition element_text :: "string \<Rightarrow> bool" where
  "element_text t = (t \<noteq> [] \<and> (\<forall>c \<in> set t. \<not> is_value_end c \<and> c \<noteq> CHR 0x22 \<and> c \<noteq> CHR ''[''))"

definition scalar_round_trip :: "('a \<Rightarrow> string) \<Rightarrow> (string \<Rightarrow> error + ('a \<times> nat)) \<Rightarrow> 'a \<Rightarrow> bool" where
  "scalar_round_trip to_chars parse x =
     (value_text (to_chars x)
      \<and> (case parse (to_chars x) of Inl e \<Rightarrow> False | Inr vc \<Rightarrow> fst vc = x))"

fun elements_round_trip :: "('a \<Rightarrow> string) \<Rightarrow> (string \<Rightarrow> error + ('a \<times> nat)) \<Rightarrow> 'a list \<Rightarrow> bool" where
  "elements_round_trip to_chars parse [] = True"
| "elements_round_trip to_chars parse (x # xs) =
     (element_text (to_chars x)
      \<and> parse (to_chars x @ join_comma False to_chars xs) = Inr (x, length (to_chars x))
      \<and> elements_round_trip to_chars parse xs)"

text \<open>
  The bytes that a blob stands for, and the blobs covered: the text written for the
  blob has no quote and no backslash, and it decodes to the bytes of the blob; the
  latter is not asked of a blob that holds a text only and is read with the eager
  unpacking switched off, which comes back as that text.
\<close>

definition blob_bytes :: "RawData \<Rightarrow> 8 word list" where
  "blob_bytes r = raw_data (fst (unpack r))"

definition round_trip_blob :: "bool \<Rightarrow> RawData \<Rightarrow> bool" where
  "round_trip_blob eager r =
     (CHR 0x22 \<notin> set (raw_encoded (pack r)) \<and> CHR 0x5C \<notin> set (raw_encoded (pack r))
      \<and> (if eager \<or> raw_data r \<noteq> []
         then unpack (RawData_of_encoded (raw_encoded (pack r))) = (RawData_of_data (blob_bytes r), None)
         else True))"

text \<open>
  A value is covered when it is an integer of one of the six widths, a boolean, a text
  as above, an array of integers of one of the six widths, a floating-point value or
  an array of such values that the library writes and reads as above, or a raw blob
  as above that is not null.
\<close>

fun round_trip_value :: "('f, 'd) env \<Rightarrow> ('f, 'd) FonValue \<Rightarrow> bool" where
  "round_trip_value E (VByte v) = True"
| "round_trip_value E (VShort v) = True"
| "round_trip_value E (VInt v) = True"
| "round_trip_value E (VUInt v) = True"
| "round_trip_value E (VLong v) = True"
| "round_trip_value E (VULong v) = True"
| "round_trip_value E (VFloat v) = scalar_round_trip (to_chars_float E) (parse_float E) v"
| "round_trip_value E (VDouble v) = scalar_round_trip (to_chars_double E) (parse_double E) v"
| "round_trip_value E (VBool v) = True"
| "round_trip_value E (VString v) = round_trip_text v"
| "round_trip_value E (VRaw None) = False"
| "round_trip_value E (VRaw (Some r)) = round_trip_blob (deserialize_raw_unpack E) r"
| "round_trip_value E (VByteArray v) = True"
| "round_trip_value E (VShortArray v) = True"
| "round_trip_value E (VIntArray v) = True"
| "round_trip_value E (VUIntArray v) = True"
| "round_trip_value E (VLongArray v) = True"
| "round_trip_value E (VULongArray v) = True"
| "round_trip_value E (VFloatArray v) = elements_round_trip (to_chars_float E) (parse_float E) v"
| "round_trip_value E (VDoubleArray v) = elements_round_trip (to_chars_double E) (parse_double E) v"
| "round_trip_value E (VBoolArray v) = False"
| "round_trip_value E (VStringArray v) = False"

text \<open>
  The value read back. \<^verbatim>\<open>serialize_value\<close> packs a raw blob in place and writes its text;
  the blob read back holds that text or, with the eager unpacking switched on, the
  bytes of the blob. Any other value is read back as it is.
\<close>

fun read_back :: "('f, 'd) env \<Rightarrow> ('f, 'd) FonValue \<Rightarrow> ('f, 'd) FonValue" where
  "read_back E (VRaw (Some r)) =
     VRaw (Some (if deserialize_raw_unpack E then RawData_of_data (blob_bytes r)
                 else RawData_of_encoded (raw_encoded (pack r))))"
| "read_back E v = v"

definition read_back_all :: "('f, 'd) env \<Rightarrow> ('f, 'd) FonCollection \<Rightarrow> ('f, 'd) FonCollection" where
  "read_back_all E c = map (\<lambda>kv. (fst kv, read_back E (snd kv))) c"

section \<open>Notions for the proofs of the round trip\<close>

text \<open>
  What may follow a number (\<open>ends_number\<close>), a value (\<open>comma_tail\<close>) and an entry
  (\<open>entry_tail\<close>) in a line, and the characters of an integer's text (\<open>number_text\<close>).
\<close>

definition ends_number :: "string \<Rightarrow> bool" where
  "ends_number tail = (case tail of [] \<Rightarrow> True | c # cs \<Rightarrow> \<not> is_digit c)"

definition comma_tail :: "string \<Rightarrow> bool" where
  "comma_tail tail = (case tail of [] \<Rightarrow> True | c # cs \<Rightarrow> c = CHR '','')"

definition number_text :: "string \<Rightarrow> bool" where
  "number_text s = (s \<noteq> [] \<and> (\<forall>c \<in> set s. is_digit c \<or> c = CHR ''-''))"

definition entry_tail :: "string \<Rightarrow> bool" where
  "entry_tail T = (case T of [] \<Rightarrow> True
     | c # T' \<Rightarrow> c = CHR '','' \<and> (case T' of [] \<Rightarrow> False | c' # cs \<Rightarrow> c' \<noteq> CHR '',''))"

section \<open>Notions for the proofs about saving\<close>

text \<open>
  The value behind a value of a dump, and the line of a record
  (\<^verbatim>\<open>serialize_to_string\<close> of it), given the blobs of the heap.
\<close>

fun deref :: "RawData list \<Rightarrow> ('f, 'd) DumpValue \<Rightarrow> ('f, 'd) FonValue" where
  "deref heap (Owned v) = v"
| "deref heap (Shared a) = VRaw (Some (heap ! a))"

definition record_line :: "('f, 'd) env \<Rightarrow> RawData list \<Rightarrow> ('f, 'd) DumpCollection \<Rightarrow> string" where
  "record_line E heap c = serialize_to_string E (map (\<lambda>kv. (fst kv, deref heap (snd kv))) c)"

text \<open>
  No blob held through the heap needs packing: each is packed already, or empty, so
  that \<^verbatim>\<open>pack\<close> returns at its guard and the workers only read the heap.
\<close>

fun packed_value :: "RawData list \<Rightarrow> ('f, 'd) DumpValue \<Rightarrow> bool" where
  "packed_value heap (Owned v) = True"
| "packed_value heap (Shared a) = (raw_encoded (heap ! a) \<noteq> [] \<or> raw_data (heap ! a) = [])"

definition packed_heap :: "RawData list \<Rightarrow> ('f, 'd) SharedDump \<Rightarrow> bool" where
  "packed_heap heap dump = (\<forall>e \<in> set dump. \<forall>kv \<in> set (snd e). packed_value heap (snd kv))"

text \<open>
  A worker's steps run on their own, over a heap that does not change: the string
  being built and the lines.
\<close>

fun step_alone :: "RawData list \<Rightarrow> step \<Rightarrow> string \<times> string list \<Rightarrow> string \<times> string list" where
  "step_alone heap (Append s) st = (fst st @ s, snd st)"
| "step_alone heap (Pack_enter a) st = st"
| "step_alone heap (Pack_fill a) st = st"
| "step_alone heap (Append_encoded a) st = (fst st @ raw_encoded (heap ! a), snd st)"
| "step_alone heap (Store_line i) st = ([], (snd st)[i := fst st])"

definition run_alone :: "RawData list \<Rightarrow> step list \<Rightarrow> string \<times> string list \<Rightarrow> string \<times> string list" where
  "run_alone heap steps st = fold (step_alone heap) steps st"

text \<open>The addresses that a list of steps touches, and the lines that it stores.\<close>

fun step_address :: "step \<Rightarrow> nat option" where
  "step_address (Pack_enter a) = Some a"
| "step_address (Pack_fill a) = Some a"
| "step_address (Append_encoded a) = Some a"
| "step_address s = None"

fun step_line :: "step \<Rightarrow> nat option" where
  "step_line (Store_line i) = Some i"
| "step_line s = None"

text \<open>
  The invariant of a run of the workers over such a heap, after the part \<open>sched\<close> of the
  schedule: the heap is as it was, no worker is inside \<^verbatim>\<open>pack\<close>, worker \<open>t\<close> has done as
  many of its steps as \<open>t\<close> occurs in \<open>sched\<close>, and the steps it has left, run on their
  own, would leave in each slot of its range the line of the record at that index.
\<close>

definition save_inv ::
  "('f, 'd) env \<Rightarrow> RawData list \<Rightarrow> ('f, 'd) SharedDump \<Rightarrow> (nat \<times> nat) list \<Rightarrow> nat list
     \<Rightarrow> memory \<times> worker list \<Rightarrow> bool" where
  "save_inv E heap entries tasks sched st =
     (blobs (fst st) = heap
      \<and> length (snd st) = length tasks
      \<and> length (line_buf (fst st)) = length entries
      \<and> (\<forall>t < length tasks.
           in_pack (snd st ! t) = False
           \<and> steps_left (snd st ! t) = drop (count_list sched t) (task_steps E entries (tasks ! t))
           \<and> (\<forall>j \<in> set (task_range tasks t).
                 snd (run_alone heap (steps_left (snd st ! t))
                        (result_buf (snd st ! t), line_buf (fst st))) ! j
                   = record_line E heap (snd (entries ! j)))))"

section \<open>A concrete environment\<close>

text \<open>
  An environment for concrete inputs without floating-point values: raw blobs stay
  packed (the default of the switch), and the conversions of floating-point values
  are trivial.
\<close>

definition env0 :: "(unit, unit) env" where
  "env0 = \<lparr>deserialize_raw_unpack = False,
            to_chars_float = (\<lambda>v. ''0''), to_chars_double = (\<lambda>v. ''0''),
            from_chars_float = (\<lambda>s. None), from_chars_double = (\<lambda>s. None),
            strtof = (\<lambda>s. ()), strtod = (\<lambda>s. ())\<rparr>"

text \<open>
  An environment whose floating-point values are whole numbers written in decimal (up
  to a million either way), with the eager unpacking switched on.
\<close>

definition env1 :: "(int, int) env" where
  "env1 = \<lparr>deserialize_raw_unpack = True,
            to_chars_float = to_chars_int, to_chars_double = to_chars_int,
            from_chars_float = (\<lambda>s. case from_chars_signed (- 1000000) 1000000 s of
                                        Inl e \<Rightarrow> None | Inr r \<Rightarrow> Some r),
            from_chars_double = (\<lambda>s. case from_chars_signed (- 1000000) 1000000 s of
                                         Inl e \<Rightarrow> None | Inr r \<Rightarrow> Some r),
            strtof = (\<lambda>s. 0), strtod = (\<lambda>s. 0)\<rparr>"

declare parse_array_loop.simps [code]
declare deserialize_loop.simps [code]

section \<open>Properties of the codec\<close>

lemma pack_noop: "raw_encoded x \<noteq> [] \<or> raw_data x = [] \<Longrightarrow> pack x = x"
  by (simp add: pack_def)

lemma unpack_noop: "raw_data x \<noteq> [] \<or> raw_encoded x = [] \<Longrightarrow> unpack x = (x, None)"
  by (simp add: unpack_def)

lemma pack_result: "pack x = x \<or> raw_data (pack x) = []"
  by (simp add: pack_def Let_def)

lemma pack_idem: "pack (pack x) = pack x"
  using pack_result [of x] pack_noop [of "pack x"] by auto

lemma unpack_cases:
  "unpack x = (x, None) \<or> unpack x = (x, Some LengthError)
   \<or> (\<exists>d e. unpack x = (x\<lparr>raw_data := d\<rparr>, Some e) \<and> raw_data x = [])
   \<or> (\<exists>d. unpack x = (\<lparr>raw_data = d, raw_encoded = []\<rparr>, None))"
  by (auto simp: unpack_def Let_def split: prod.splits option.splits)

lemma unpack_state_idem: "fst (unpack (fst (unpack x))) = fst (unpack x)"
proof -
  consider (same) "unpack x = (x, None)" | (len) "unpack x = (x, Some LengthError)"
    | (thrown) d e where "unpack x = (x\<lparr>raw_data := d\<rparr>, Some e)" "raw_data x = []"
    | (finished) d where "unpack x = (\<lparr>raw_data = d, raw_encoded = []\<rparr>, None)"
    using unpack_cases [of x] by blast
  then show ?thesis
  proof cases
    case same
    then show ?thesis by simp
  next
    case len
    then show ?thesis by simp
  next
    case thrown
    show ?thesis
    proof (cases "d = []")
      case True
      with thrown have "x\<lparr>raw_data := d\<rparr> = x" by simp
      with thrown show ?thesis by simp
    next
      case False
      then have "unpack (x\<lparr>raw_data := d\<rparr>) = (x\<lparr>raw_data := d\<rparr>, None)"
        by (intro unpack_noop) simp
      with thrown show ?thesis by simp
    qed
  next
    case finished
    have "unpack \<lparr>raw_data = d, raw_encoded = []\<rparr> = (\<lparr>raw_data = d, raw_encoded = []\<rparr>, None)"
      by (intro unpack_noop) simp
    with finished show ?thesis by simp
  qed
qed

lemma unpack_completed_idem:
  assumes "snd (unpack x) = None"
  shows "unpack (fst (unpack x)) = (fst (unpack x), None)"
proof -
  consider (same) "unpack x = (x, None)"
    | (finished) d where "unpack x = (\<lparr>raw_data = d, raw_encoded = []\<rparr>, None)"
    using unpack_cases [of x] assms by auto
  then show ?thesis
  proof cases
    case same
    then show ?thesis by simp
  next
    case finished
    have "unpack \<lparr>raw_data = d, raw_encoded = []\<rparr> = (\<lparr>raw_data = d, raw_encoded = []\<rparr>, None)"
      by (intro unpack_noop) simp
    with finished show ?thesis by simp
  qed
qed

text \<open>
  Claim C8. \<^verbatim>\<open>pack\<close> changes nothing when the encoded text already holds data or the
  bytes are empty (blob \<open>x\<close>); \<^verbatim>\<open>unpack\<close> changes nothing and throws nothing when the
  bytes already hold data or the encoded text is empty (blob \<open>y\<close>). Hence for every
  blob \<open>z\<close>: packing twice is packing once; the object that a second \<^verbatim>\<open>unpack\<close> leaves is
  the object that the first one left, also when the first one threw; and after an
  \<^verbatim>\<open>unpack\<close> that completed, a second one returns the same object and completes too.
\<close>

theorem pack_unpack_noop_idempotent:
  "(raw_encoded x \<noteq> [] \<or> raw_data x = [] \<longrightarrow> pack x = x)
   \<and> (raw_data y \<noteq> [] \<or> raw_encoded y = [] \<longrightarrow> unpack y = (y, None))
   \<and> pack (pack z) = pack z
   \<and> fst (unpack (fst (unpack z))) = fst (unpack z)
   \<and> (snd (unpack z) = None \<longrightarrow> unpack (fst (unpack z)) = unpack z)"
  using pack_noop [of x] unpack_noop [of y] pack_idem [of z] unpack_state_idem [of z]
    unpack_completed_idem [of z]
  by (metis prod.collapse)

theorem pack_unpack_noop_idempotent_witness:
  "raw_encoded (RawData_of_encoded ''00000'') \<noteq> []
   \<and> pack (RawData_of_encoded ''00000'') = RawData_of_encoded ''00000''
   \<and> raw_data (RawData_of_data [1]) \<noteq> []
   \<and> unpack (RawData_of_data [1]) = (RawData_of_data [1], None)
   \<and> snd (unpack (pack (RawData_of_data [1, 2, 3, 4, 5]))) = None
   \<and> unpack (fst (unpack (pack (RawData_of_data [1, 2, 3, 4, 5]))))
       = unpack (pack (RawData_of_data [1, 2, 3, 4, 5]))"
proof -
  have completes: "snd (unpack (pack (RawData_of_data [1, 2, 3, 4, 5]))) = None"
    by code_simp
  show ?thesis
    using completes
      pack_unpack_noop_idempotent [of "RawData_of_encoded ''00000''" "RawData_of_data [1]"
        "pack (RawData_of_data [1, 2, 3, 4, 5])"]
    by (simp add: RawData_of_encoded_def RawData_of_data_def)
qed

lemma one_form_pack:
  "raw_data r = [] \<or> raw_encoded r = [] \<Longrightarrow> raw_data (pack r) = [] \<or> raw_encoded (pack r) = []"
  by (auto simp: pack_def Let_def)

lemma one_form_unpack:
  "raw_data r = [] \<or> raw_encoded r = [] \<Longrightarrow> snd (unpack r) = None
     \<Longrightarrow> raw_data (fst (unpack r)) = [] \<or> raw_encoded (fst (unpack r)) = []"
  by (auto simp: unpack_def Let_def split: prod.splits option.splits if_splits)

lemma one_form_call:
  "raw_data r = [] \<or> raw_encoded r = [] \<Longrightarrow> snd (call c r) = None
     \<Longrightarrow> raw_data (fst (call c r)) = [] \<or> raw_encoded (fst (call c r)) = []"
  by (cases c) (simp_all add: one_form_pack one_form_unpack)

lemma one_form_run_calls:
  "raw_data r = [] \<or> raw_encoded r = [] \<Longrightarrow> all_completed cs r
     \<Longrightarrow> raw_data (run_calls cs r) = [] \<or> raw_encoded (run_calls cs r) = []"
proof (induction cs arbitrary: r)
  case Nil
  then show ?case by simp
next
  case (Cons c cs)
  from Cons.prems have "raw_data (fst (call c r)) = [] \<or> raw_encoded (fst (call c r)) = []"
    by (intro one_form_call) simp_all
  with Cons show ?case by simp
qed

lemma one_form_construct: "raw_data (construct k) = [] \<or> raw_encoded (construct k) = []"
  by (cases k) (simp_all add: RawData_default_def RawData_of_data_def RawData_of_encoded_def)

text \<open>
  Claim C10, as stated, fails: a blob built from the encoded text \<open>0000\<close> followed by a
  space, on which \<^verbatim>\<open>unpack\<close> is called once. The call resizes the byte vector to four
  bytes, then throws on the space; the object is left with four bytes and its text,
  so that \<^verbatim>\<open>is_packed()\<close> and \<^verbatim>\<open>is_unpacked()\<close> are both true.
\<close>

theorem both_forms_after_failed_unpack:
  "run_calls [Call_unpack] (construct (Ctor_encoded ''0000 ''))
     = \<lparr>raw_data = [0, 0, 0, 0], raw_encoded = ''0000 ''\<rparr>
   \<and> is_packed (run_calls [Call_unpack] (construct (Ctor_encoded ''0000 '')))
   \<and> is_unpacked (run_calls [Call_unpack] (construct (Ctor_encoded ''0000 '')))"
  by code_simp

text \<open>
  Claim C10, amended. A blob produced by a constructor and any sequence of \<^verbatim>\<open>pack\<close>
  and \<^verbatim>\<open>unpack\<close> calls none of which throws holds at most one non-empty representation:
  \<^verbatim>\<open>is_packed()\<close> and \<^verbatim>\<open>is_unpacked()\<close> are not both true.
\<close>

theorem at_most_one_form_when_completed:
  "all_completed cs (construct k)
     \<Longrightarrow> \<not> (is_packed (run_calls cs (construct k)) \<and> is_unpacked (run_calls cs (construct k)))"
  using one_form_run_calls [OF one_form_construct, of cs k]
  by (auto simp: is_packed_def is_unpacked_def)

theorem at_most_one_form_when_completed_witness:
  "all_completed [Call_pack, Call_unpack, Call_unpack, Call_pack] (construct (Ctor_data [1, 2, 3, 4, 5]))
   \<and> \<not> (is_packed (run_calls [Call_pack, Call_unpack, Call_unpack, Call_pack]
                     (construct (Ctor_data [1, 2, 3, 4, 5])))
        \<and> is_unpacked (run_calls [Call_pack, Call_unpack, Call_unpack, Call_pack]
                         (construct (Ctor_data [1, 2, 3, 4, 5]))))"
proof -
  have completed:
    "all_completed [Call_pack, Call_unpack, Call_unpack, Call_pack] (construct (Ctor_data [1, 2, 3, 4, 5]))"
    by code_simp
  show ?thesis
    using completed at_most_one_form_when_completed [OF completed] by blast
qed

text \<open>
  Claim C2 fails on the code. The four bytes 0, 0, 0, 1 pack to the text \<open>00001\<close>, with
  no marker since the length is a multiple of four; \<^verbatim>\<open>unpack\<close> takes the last digit
  \<open>1\<close> of the group for a padding marker, computes the output length \<open>0 - 1\<close> and throws.
  With eight bytes of the same kind it returns three bytes instead of eight.
\<close>

theorem unpack_pack_last_digit_taken_for_marker:
  "raw_encoded (pack (RawData_of_data [0, 0, 0, 1])) = ''00001''
   \<and> unpack (pack (RawData_of_data [0, 0, 0, 1]))
       = (\<lparr>raw_data = [], raw_encoded = ''00001''\<rparr>, Some LengthError)
   \<and> unpack (pack (RawData_of_data [0, 0, 0, 0, 0, 0, 0, 1]))
       = (\<lparr>raw_data = [0, 0, 0], raw_encoded = []\<rparr>, None)"
  by code_simp

theorem unpack_pack_last_digit_taken_for_marker_witness:
  "fst (unpack (pack (RawData_of_data [0, 0, 0, 1]))) \<noteq> RawData_of_data [0, 0, 0, 1]
   \<and> snd (unpack (pack (RawData_of_data [0, 0, 0, 1]))) \<noteq> None
   \<and> fst (unpack (pack (RawData_of_data [0, 0, 0, 0, 0, 0, 0, 1])))
       \<noteq> RawData_of_data [0, 0, 0, 0, 0, 0, 0, 1]"
  using unpack_pack_last_digit_taken_for_marker by (simp add: RawData_of_data_def)

section \<open>Properties of quoted strings\<close>

text \<open>
  Claim C4 fails on the code. The text of the single byte 1 is written as the six
  characters of the escape \<open>\u0001\<close> between quotes, as documented; \<^verbatim>\<open>parse_string\<close> has no
  case for \<open>u\<close> and returns the five characters \<open>u0001\<close>.
\<close>

theorem u_escape_not_parsed_back:
  "serialize_string [CHR 0x01]
     = [CHR 0x22, CHR 0x5C, CHR ''u'', CHR ''0'', CHR ''0'', CHR ''0'', CHR ''1'', CHR 0x22]
   \<and> parse_string (serialize_string [CHR 0x01]) = Inr (''u0001'', 8)"
  by code_simp

theorem u_escape_not_parsed_back_witness:
  "parse_string (serialize_string [CHR 0x01]) \<noteq> Inr ([CHR 0x01], 8)"
proof -
  have "parse_string (serialize_string [CHR 0x01]) = Inr (''u0001'', 8)"
    using u_escape_not_parsed_back by blast
  then show ?thesis by simp
qed

text \<open>
  Claim C5 fails on the code. In the five characters quote, \<open>a\<close>, backslash, backslash,
  quote, the last quote follows two backslashes and should end the string after \<open>a\<close> and
  one backslash. The scan only looks at the one character before the quote, passes
  over it and runs to the end of the input: the content comes back as \<open>a\<close>, backslash,
  quote, and six characters count as read.
\<close>

theorem quote_after_two_backslashes_not_closing:
  "parse_string [CHR 0x22, CHR ''a'', CHR 0x5C, CHR 0x5C, CHR 0x22]
     = Inr ([CHR ''a'', CHR 0x5C, CHR 0x22], 6)"
  by code_simp

theorem quote_after_two_backslashes_not_closing_witness:
  "parse_string [CHR 0x22, CHR ''a'', CHR 0x5C, CHR 0x5C, CHR 0x22] \<noteq> Inr ([CHR ''a'', CHR 0x5C], 5)"
  using quote_after_two_backslashes_not_closing by simp

section \<open>Properties of the line parser\<close>

lemma loop_invalid_format:
  assumes "find_char (CHR ''='') line = Some p"
    and "length line < p + 3 \<or> line ! (p + 2) \<noteq> CHR '':''"
  shows "deserialize_loop E line c = Some (Inl InvalidFormat)"
proof -
  from assms(1) have ne: "line \<noteq> []" by (auto simp: find_char_def split: if_splits)
  from assms(2) have "length (drop (p + 1) line) < 2 \<or> drop (p + 1) line ! 1 \<noteq> CHR '':''"
    by (auto simp: add.commute)
  with ne assms(1) show ?thesis
    by (subst deserialize_loop.simps) simp
qed

lemma loop_no_equals:
  assumes "CHR ''='' \<notin> set line"
  shows "deserialize_loop E line c = Some (Inr c)"
  using assms by (subst deserialize_loop.simps) (simp add: find_char_def)

text \<open>
  Claim C6, as stated, fails: in the line \<open>a=i:1,garbage\<close> the second entry has no \<open>=\<close>;
  \<^verbatim>\<open>deserialize_line\<close> leaves its loop and returns the record of the first entry. A line
  that has no \<open>=\<close> at all gives the empty record.
\<close>

theorem entry_without_equals_is_dropped:
  "deserialize_line env0 ''a=i:1,garbage'' = Some (Inr [(''a'', VInt 1)])
   \<and> deserialize_line env0 ''garbage'' = Some (Inr [])"
  by code_simp

text \<open>
  Claim C6, amended. At the start of an entry, with \<open>c\<close> the record of the entries parsed
  before: if the text that remains has its first \<open>=\<close> at position \<open>p\<close> and is too short
  for a tag and a colon after it, or the character after the tag is not a colon, the
  loop fails with the format error and returns no record; if the text that remains has
  no \<open>=\<close>, the loop ends and returns \<open>c\<close>, without an error.
\<close>

theorem malformed_entry_outcomes:
  "(find_char (CHR ''='') line = Some p \<and> (length line < p + 3 \<or> line ! (p + 2) \<noteq> CHR '':'')
      \<longrightarrow> deserialize_loop E line c = Some (Inl InvalidFormat))
   \<and> (CHR ''='' \<notin> set line' \<longrightarrow> deserialize_loop E line' c = Some (Inr c))"
  using loop_invalid_format [of line p E c] loop_no_equals [of line' E c] by blast

theorem malformed_entry_outcomes_witness:
  "deserialize_line env0 ''a=i:1,b=s'' = Some (Inl InvalidFormat)
   \<and> deserialize_line env0 ''a=i:1,b=i;2'' = Some (Inl InvalidFormat)
   \<and> deserialize_line env0 ''a=i:1,b'' = Some (Inr [(''a'', VInt 1)])"
proof -
  have first: "deserialize_line env0 ''a=i:1,b=s'' = deserialize_loop env0 ''b=s'' [(''a'', VInt 1)]"
    "deserialize_line env0 ''a=i:1,b=i;2'' = deserialize_loop env0 ''b=i;2'' [(''a'', VInt 1)]"
    "deserialize_line env0 ''a=i:1,b'' = deserialize_loop env0 ''b'' [(''a'', VInt 1)]"
    by code_simp+
  have pos: "find_char (CHR ''='') ''b=s'' = Some 1" "find_char (CHR ''='') ''b=i;2'' = Some 1"
    by code_simp+
  show ?thesis
    using first pos
      malformed_entry_outcomes [of "''b=s''" 1 env0 "[(''a'', VInt 1)]" "''b''"]
      malformed_entry_outcomes [of "''b=i;2''" 1 env0 "[(''a'', VInt 1)]" "''b''"]
    by simp
qed

section \<open>Properties of the fan-out\<close>

lemma make_tasks_nth:
  assumes "t < length (make_tasks n mt)"
  shows "make_tasks n mt ! t = (t * ((n + mt - 1) div mt), min (t * ((n + mt - 1) div mt) + (n + mt - 1) div mt) n)"
    and "t < mt"
proof -
  let ?cs = "(n + mt - 1) div mt"
  let ?xs = "map (\<lambda>t. (t * ?cs, min (t * ?cs + ?cs) n)) [0..<mt]"
  have len: "length (make_tasks n mt) \<le> length ?xs"
    unfolding make_tasks_def Let_def by (rule length_takeWhile_le)
  with assms show "t < mt" by simp
  then show "make_tasks n mt ! t = (t * ?cs, min (t * ?cs + ?cs) n)"
    using assms unfolding make_tasks_def Let_def by (simp add: takeWhile_nth)
qed

lemma chunk_bound:
  assumes "0 < (mt::nat)"
  shows "n \<le> mt * ((n + mt - 1) div mt)"
proof -
  have "(n + mt - 1) mod mt < mt" using assms by simp
  moreover have "mt * ((n + mt - 1) div mt) + (n + mt - 1) mod mt = n + mt - 1"
    by (rule mult_div_mod_eq)
  ultimately show ?thesis using assms by linarith
qed

lemma div_chunk:
  assumes "0 < (cs::nat)"
  shows "(i div cs) * cs \<le> i" and "i < (i div cs) * cs + cs"
proof -
  have eq: "(i div cs) * cs + i mod cs = i" by (rule div_mult_mod_eq)
  then show "(i div cs) * cs \<le> i" by linarith
  have "i mod cs < cs" using assms by simp
  with eq show "i < (i div cs) * cs + cs" by linarith
qed

lemma make_tasks_cover:
  assumes "0 < mt" "i < n"
  shows "\<exists>t < length (make_tasks n mt). fst (make_tasks n mt ! t) \<le> i \<and> i < snd (make_tasks n mt ! t)"
proof -
  define cs where "cs = (n + mt - 1) div mt"
  define xs where "xs = map (\<lambda>t. (t * cs, min (t * cs + cs) n)) [0..<mt]"
  have tasks: "make_tasks n mt = takeWhile (\<lambda>task. fst task < n) xs"
    by (simp add: make_tasks_def Let_def cs_def xs_def)
  have n_le: "n \<le> mt * cs" unfolding cs_def by (rule chunk_bound[OF assms(1)])
  have cs_pos: "0 < cs"
  proof (rule ccontr)
    assume "\<not> 0 < cs"
    then have "cs = 0" by simp
    with n_le assms(2) show False by simp
  qed
  define t where "t = i div cs"
  have t_start: "t * cs \<le> i" and t_end: "i < t * cs + cs"
    unfolding t_def by (rule div_chunk[OF cs_pos])+
  have t_mt: "t < mt"
  proof (rule ccontr)
    assume "\<not> t < mt"
    then have "mt \<le> t" by simp
    then have "mt * cs \<le> t * cs" by (rule mult_le_mono1)
    with t_start n_le assms(2) show False by linarith
  qed
  have "Suc t \<le> length (takeWhile (\<lambda>task. fst task < n) xs)"
  proof (rule length_takeWhile_less_P_nth)
    show "Suc t \<le> length xs" using t_mt by (simp add: xs_def)
  next
    fix j assume "j < Suc t"
    then have jt: "j \<le> t" by simp
    then have "j * cs \<le> t * cs" by (rule mult_le_mono1)
    with t_start assms(2) have "j * cs < n" by linarith
    moreover have "j < mt" using jt t_mt by simp
    ultimately show "fst (xs ! j) < n" by (simp add: xs_def)
  qed
  then have t_len: "t < length (make_tasks n mt)" by (simp add: tasks)
  have "make_tasks n mt ! t = (t * cs, min (t * cs + cs) n)"
    using make_tasks_nth(1)[OF t_len] by (simp add: cs_def)
  with t_start t_end assms(2)
  have "fst (make_tasks n mt ! t) \<le> i \<and> i < snd (make_tasks n mt ! t)" by simp
  with t_len show ?thesis by blast
qed

text \<open>
  No two tasks share an index, which is why a run of the loader's tasks one after the
  other, in the order of their completion, stands for their concurrent run.
\<close>

lemma task_ranges_disjoint:
  assumes "t < length (make_tasks n mt)" "t' < length (make_tasks n mt)" "t < t'"
  shows "set (task_range (make_tasks n mt) t) \<inter> set (task_range (make_tasks n mt) t') = {}"
proof -
  define cs where "cs = (n + mt - 1) div mt"
  have t: "make_tasks n mt ! t = (t * cs, min (t * cs + cs) n)"
    using make_tasks_nth(1)[OF assms(1)] by (simp add: cs_def)
  have t': "make_tasks n mt ! t' = (t' * cs, min (t' * cs + cs) n)"
    using make_tasks_nth(1)[OF assms(2)] by (simp add: cs_def)
  from assms(3) have "Suc t \<le> t'" by simp
  then have "Suc t * cs \<le> t' * cs" by (rule mult_le_mono1)
  then have "t * cs + cs \<le> t' * cs" by simp
  then show ?thesis by (auto simp: task_range_def t t')
qed

lemma run_task_outcome: "map_option snd (run_task work is buf) = task_outcome work is"
  by (induction "is" arbitrary: buf) (auto split: option.splits sum.splits)

lemma run_task_length: "run_task work is buf = Some (buf', r) \<Longrightarrow> length buf' = length buf"
  by (induction "is" arbitrary: buf) (auto split: option.splits sum.splits)

lemma buf_inv_mono: "buf_inv work buf0 b S \<Longrightarrow> S' \<subseteq> S \<Longrightarrow> buf_inv work buf0 b S'"
  by (auto simp: buf_inv_def)

lemma buf_inv_write:
  assumes inv: "buf_inv work buf0 b S" and w: "work i = Some (Inr (Some v))"
  shows "buf_inv work buf0 (b[i := v]) (insert i S)"
  unfolding buf_inv_def
proof (intro conjI allI impI ballI)
  show "length (b[i := v]) = length buf0" using inv by (simp add: buf_inv_def)
next
  fix j assume j: "j < length buf0"
  show "b[i := v] ! j = buf0 ! j \<or> work j = Some (Inr (Some (b[i := v] ! j)))"
  proof (cases "j = i")
    case True
    with j inv w show ?thesis by (simp add: buf_inv_def)
  next
    case False
    with j inv show ?thesis by (simp add: buf_inv_def)
  qed
next
  fix j assume jS: "j \<in> insert i S" and j: "j < length buf0"
  show "slot_ok work buf0 (b[i := v]) j"
  proof (cases "j = i")
    case True
    with j inv w show ?thesis by (simp add: buf_inv_def slot_ok_def)
  next
    case False
    with jS have "j \<in> S" by simp
    with inv j have "slot_ok work buf0 b j" by (simp add: buf_inv_def)
    with False show ?thesis by (simp add: slot_ok_def)
  qed
qed

lemma buf_inv_skip:
  assumes inv: "buf_inv work buf0 b S" and w: "work i = Some (Inr None)"
  shows "buf_inv work buf0 b (insert i S)"
  unfolding buf_inv_def
proof (intro conjI allI impI ballI)
  show "length b = length buf0" using inv by (simp add: buf_inv_def)
next
  fix j assume j: "j < length buf0"
  with inv show "b ! j = buf0 ! j \<or> work j = Some (Inr (Some (b ! j)))" by (simp add: buf_inv_def)
next
  fix j assume jS: "j \<in> insert i S" and j: "j < length buf0"
  show "slot_ok work buf0 b j"
  proof (cases "j = i")
    case True
    from inv j have "b ! j = buf0 ! j \<or> work j = Some (Inr (Some (b ! j)))" by (simp add: buf_inv_def)
    with True w have "b ! i = buf0 ! i" by auto
    with True w show ?thesis by (simp add: slot_ok_def)
  next
    case False
    with jS have "j \<in> S" by simp
    with inv j show ?thesis by (simp add: buf_inv_def)
  qed
qed

lemma run_task_inv:
  "buf_inv work buf0 b S \<Longrightarrow> run_task work is b = Some (b', r)
     \<Longrightarrow> buf_inv work buf0 b' (if r = None then S \<union> set is else S)"
proof (induction "is" arbitrary: b S)
  case Nil
  then show ?case by simp
next
  case (Cons i "is")
  show ?case
  proof (cases "work i")
    case None
    with Cons.prems show ?thesis by simp
  next
    case (Some x)
    show ?thesis
    proof (cases x)
      case (Inl e)
      with Some Cons.prems show ?thesis by auto
    next
      case (Inr w)
      show ?thesis
      proof (cases w)
        case None
        with Some Inr Cons.prems have run: "run_task work is b = Some (b', r)" by simp
        from Some Inr None have "work i = Some (Inr None)" by simp
        from buf_inv_skip[OF Cons.prems(1) this] have "buf_inv work buf0 b (insert i S)" .
        from Cons.IH[OF this run] have *: "buf_inv work buf0 b' (if r = None then insert i S \<union> set is else insert i S)" .
        show ?thesis
          by (rule buf_inv_mono[OF *]) auto
      next
        case (Some v)
        with \<open>work i = Some x\<close> Inr have wi: "work i = Some (Inr (Some v))" by simp
        with Cons.prems have run: "run_task work is (b[i := v]) = Some (b', r)" by simp
        from buf_inv_write[OF Cons.prems(1) wi]
        have "buf_inv work buf0 (b[i := v]) (insert i S)" .
        from Cons.IH[OF this run] have *: "buf_inv work buf0 b' (if r = None then insert i S \<union> set is else insert i S)" .
        show ?thesis
          by (rule buf_inv_mono[OF *]) auto
      qed
    qed
  qed
qed

lemma run_schedule_inv:
  "buf_inv work buf0 b S \<Longrightarrow> run_schedule work tasks sched (b, fut) = Some (b', fut')
     \<Longrightarrow> buf_inv work buf0 b' S
         \<and> (\<forall>t. t \<notin> set sched \<longrightarrow> fut' t = fut t)
         \<and> (\<forall>t \<in> set sched. fut' t = Some (the (task_outcome work (task_range tasks t)))
                \<and> task_outcome work (task_range tasks t) \<noteq> None
                \<and> (fut' t = Some None \<longrightarrow> (\<forall>i \<in> set (task_range tasks t). i < length buf0 \<longrightarrow> slot_ok work buf0 b' i)))"
proof (induction sched arbitrary: b S fut)
  case Nil
  then show ?case by simp
next
  case (Cons t ts)
  from Cons.prems(2) obtain b1 r where
    run1: "run_task work (task_range tasks t) b = Some (b1, r)"
    and rest: "run_schedule work tasks ts (b1, fut(t \<mapsto> r)) = Some (b', fut')"
    by (auto simp: task_range_def split: option.splits)
  from run_task_outcome[of work "task_range tasks t" b] run1
  have outcome: "task_outcome work (task_range tasks t) = Some r" by simp
  define S1 where "S1 = (if r = None then S \<union> set (task_range tasks t) else S)"
  from run_task_inv[OF Cons.prems(1) run1] have inv1: "buf_inv work buf0 b1 S1" by (simp add: S1_def)
  from Cons.IH[OF inv1 rest]
  have inv': "buf_inv work buf0 b' S1"
    and keep: "\<forall>u. u \<notin> set ts \<longrightarrow> fut' u = (fut(t \<mapsto> r)) u"
    and sched: "\<forall>u \<in> set ts. fut' u = Some (the (task_outcome work (task_range tasks u)))
                \<and> task_outcome work (task_range tasks u) \<noteq> None
                \<and> (fut' u = Some None \<longrightarrow> (\<forall>i \<in> set (task_range tasks u). i < length buf0 \<longrightarrow> slot_ok work buf0 b' i))"
    by blast+
  have S_sub: "S \<subseteq> S1" by (auto simp: S1_def)
  have "buf_inv work buf0 b' S" by (rule buf_inv_mono[OF inv' S_sub])
  moreover have "\<forall>u. u \<notin> set (t # ts) \<longrightarrow> fut' u = fut u"
    using keep by auto
  moreover have "\<forall>u \<in> set (t # ts). fut' u = Some (the (task_outcome work (task_range tasks u)))
                \<and> task_outcome work (task_range tasks u) \<noteq> None
                \<and> (fut' u = Some None \<longrightarrow> (\<forall>i \<in> set (task_range tasks u). i < length buf0 \<longrightarrow> slot_ok work buf0 b' i))"
  proof
    fix u assume u: "u \<in> set (t # ts)"
    show "fut' u = Some (the (task_outcome work (task_range tasks u)))
                \<and> task_outcome work (task_range tasks u) \<noteq> None
                \<and> (fut' u = Some None \<longrightarrow> (\<forall>i \<in> set (task_range tasks u). i < length buf0 \<longrightarrow> slot_ok work buf0 b' i))"
    proof (cases "u \<in> set ts")
      case True
      with sched show ?thesis by blast
    next
      case False
      with u have ut: "u = t" by simp
      from False keep ut have fu: "fut' u = Some r" by simp
      have "fut' u = Some None \<longrightarrow> (\<forall>i \<in> set (task_range tasks u). i < length buf0 \<longrightarrow> slot_ok work buf0 b' i)"
      proof (intro impI ballI)
        fix i assume "fut' u = Some None" and i: "i \<in> set (task_range tasks u)" and il: "i < length buf0"
        with fu have "r = None" by simp
        with i ut have "i \<in> S1" by (simp add: S1_def)
        with inv' il show "slot_ok work buf0 b' i" by (simp add: buf_inv_def)
      qed
      with fu outcome ut show ?thesis by simp
    qed
  qed
  ultimately show ?case by blast
qed

lemma run_schedule_total:
  "\<forall>t \<in> set sched. task_outcome work (task_range tasks t) \<noteq> None
     \<Longrightarrow> \<exists>st'. run_schedule work tasks sched st = Some st'"
proof (induction sched arbitrary: st)
  case Nil
  then show ?case by simp
next
  case (Cons t ts)
  from Cons.prems have "task_outcome work (task_range tasks t) \<noteq> None" by simp
  with run_task_outcome[of work "task_range tasks t" "fst st"]
  obtain b1 r where "run_task work (task_range tasks t) (fst st) = Some (b1, r)"
    by (cases "run_task work (task_range tasks t) (fst st)") auto
  moreover from Cons.IH[of "(b1, (snd st)(t \<mapsto> r))"] Cons.prems
  obtain st' where "run_schedule work tasks ts (b1, (snd st)(t \<mapsto> r)) = Some st'" by auto
  ultimately show ?case by (simp add: task_range_def)
qed

lemma join_futures_ok:
  "join_futures fut ts = Some None \<longleftrightarrow> (\<forall>t \<in> set ts. fut t = Some None)"
  by (induction ts) (auto split: option.splits)

lemma join_futures_first:
  assumes "a < m" "fut a = Some (Some e)" "\<forall>t < a. fut t = Some None"
  shows "join_futures fut [0..<m] = Some (Some e)"
proof -
  have split: "[0..<m] = [0..<a] @ a # [Suc a..<m]"
    using assms(1) by (metis less_imp_le_nat upt_add_eq_append upt_conv_Cons le0 le_add_diff_inverse)
  have pre: "join_futures fut (xs @ ys) = join_futures fut ys" if "\<forall>t \<in> set xs. fut t = Some None" for xs ys
    using that by (induction xs) auto
  have "join_futures fut [0..<m] = join_futures fut (a # [Suc a..<m])"
    unfolding split using assms(3) by (intro pre) auto
  with assms(2) show ?thesis by simp
qed

lemma buf_inv_init: "buf_inv work buf buf {}"
  by (simp add: buf_inv_def)

lemma fan_out_result:
  assumes valid: "valid_schedule (make_tasks n mt) sched"
    and len: "length buf = n"
    and res: "fan_out work n mt sched buf = Some (Inr buf')"
  shows "length buf' = n" and "\<forall>i < n. slot_ok work buf buf' i"
proof -
  let ?tasks = "make_tasks n mt"
  from res have mt: "0 < mt" by (auto simp: fan_out_def split: if_splits)
  from res mt obtain fut' where
    run: "run_schedule work ?tasks sched (buf, Map.empty) = Some (buf', fut')"
    and join: "join_futures fut' [0..<length ?tasks] = Some None"
    by (auto simp: fan_out_def split: option.splits)
  from run_schedule_inv[OF buf_inv_init run]
  have inv: "buf_inv work buf buf' {}"
    and sched: "\<forall>t \<in> set sched. fut' t = Some None \<longrightarrow>
        (\<forall>i \<in> set (task_range ?tasks t). i < length buf \<longrightarrow> slot_ok work buf buf' i)"
    by blast+
  from inv len show "length buf' = n" by (simp add: buf_inv_def)
  show "\<forall>i < n. slot_ok work buf buf' i"
  proof (intro allI impI)
    fix i assume i: "i < n"
    from make_tasks_cover[OF mt i] obtain t where
      t: "t < length ?tasks" and range: "fst (?tasks ! t) \<le> i" "i < snd (?tasks ! t)" by blast
    from t valid have "t \<in> set sched" by (simp add: valid_schedule_def)
    moreover from join t have "fut' t = Some None" by (simp add: join_futures_ok)
    moreover from range have "i \<in> set (task_range ?tasks t)" by (simp add: task_range_def)
    ultimately show "slot_ok work buf buf' i" using sched i len by blast
  qed
qed

lemma task_outcome_ok:
  "\<forall>i \<in> set is. \<exists>w. work i = Some (Inr w) \<Longrightarrow> task_outcome work is = Some None"
  by (induction "is") auto

lemma task_range_bound:
  assumes "t < length (make_tasks n mt)" "i \<in> set (task_range (make_tasks n mt) t)"
  shows "i < n"
  using assms make_tasks_nth(1)[OF assms(1)] by (simp add: task_range_def)

lemma fan_out_total:
  assumes mt: "0 < mt"
    and valid: "valid_schedule (make_tasks n mt) sched"
    and ok: "\<forall>i < n. \<exists>w. work i = Some (Inr w)"
  shows "\<exists>buf'. fan_out work n mt sched buf = Some (Inr buf')"
proof -
  let ?tasks = "make_tasks n mt"
  have outcomes: "task_outcome work (task_range ?tasks t) = Some None" if "t < length ?tasks" for t
  proof (rule task_outcome_ok, rule ballI)
    fix i assume "i \<in> set (task_range ?tasks t)"
    from task_range_bound[OF that this] ok show "\<exists>w. work i = Some (Inr w)" by simp
  qed
  have "\<forall>t \<in> set sched. task_outcome work (task_range ?tasks t) \<noteq> None"
    using valid outcomes by (simp add: valid_schedule_def)
  from run_schedule_total[OF this, of "(buf, Map.empty)"] obtain b' fut' where
    run: "run_schedule work ?tasks sched (buf, Map.empty) = Some (b', fut')" by (cases) auto
  from run_schedule_inv[OF buf_inv_init run]
  have "\<forall>t \<in> set sched. fut' t = Some (the (task_outcome work (task_range ?tasks t)))" by blast
  with valid outcomes have "\<forall>t \<in> set [0..<length ?tasks]. fut' t = Some None"
    by (simp add: valid_schedule_def)
  then have "join_futures fut' [0..<length ?tasks] = Some None" by (simp only: join_futures_ok)
  with run mt show ?thesis by (simp add: fan_out_def)
qed

lemma fan_out_first_error:
  assumes mt: "0 < mt"
    and valid: "valid_schedule (make_tasks n mt) sched"
    and ends: "\<forall>t < length (make_tasks n mt). task_outcome work (task_range (make_tasks n mt) t) \<noteq> None"
    and a: "a < length (make_tasks n mt)"
    and fails: "task_outcome work (task_range (make_tasks n mt) a) = Some (Some e)"
    and before: "\<forall>t < a. task_outcome work (task_range (make_tasks n mt) t) = Some None"
  shows "fan_out work n mt sched buf = Some (Inl e)"
proof -
  let ?tasks = "make_tasks n mt"
  have "\<forall>t \<in> set sched. task_outcome work (task_range ?tasks t) \<noteq> None"
    using valid ends by (simp add: valid_schedule_def)
  from run_schedule_total[OF this, of "(buf, Map.empty)"] obtain b' fut' where
    run: "run_schedule work ?tasks sched (buf, Map.empty) = Some (b', fut')" by (cases) auto
  from run_schedule_inv[OF buf_inv_init run]
  have fut: "\<forall>t \<in> set sched. fut' t = Some (the (task_outcome work (task_range ?tasks t)))" by blast
  from a valid have "a \<in> set sched" by (simp add: valid_schedule_def)
  with fut fails have fa: "fut' a = Some (Some e)" by simp
  have fb: "\<forall>t < a. fut' t = Some None"
  proof (intro allI impI)
    fix t assume "t < a"
    with a valid have "t \<in> set sched" by (simp add: valid_schedule_def)
    with fut before \<open>t < a\<close> show "fut' t = Some None" by simp
  qed
  from join_futures_first[OF a fa fb] run mt show ?thesis by (simp add: fan_out_def)
qed

lemma serialize_no_failure:
  assumes "0 < resolve_threads max_threads hw"
  shows "serialize_to_file_parallel E dump heap max_threads hw sched \<noteq> Some (Inl e)"
  using assms by (simp add: serialize_to_file_parallel_def Let_def)

text \<open>
  Claim C9. Let \<^verbatim>\<open>deserialize_from_file\<close> run on a file with a positive thread count, the
  tasks completing in any order (the schedule). Let every task end, let task \<open>a\<close> end
  with the exception \<open>e\<close>, and let every task launched before \<open>a\<close> end without one. Then
  the call, and \<^verbatim>\<open>deserialize_from_file_parallel\<close> alike, fails with \<open>e\<close>, whatever the tasks
  launched after \<open>a\<close> leave in their futures: their exceptions are never looked at.
  A worker of \<^verbatim>\<open>serialize_to_file\<close> has no step that throws, so that call never fails
  with the exception of a task.
\<close>

theorem first_launched_failure_surfaces:
  assumes threads: "0 < resolve_threads max_threads hw"
    and file_lines: "file_lines = split_lines content []"
    and tasks: "tasks = make_tasks (length file_lines) (resolve_threads max_threads hw)"
    and valid: "valid_schedule tasks sched"
    and ends: "\<forall>t < length tasks. task_outcome (deserialize_work E file_lines) (task_range tasks t) \<noteq> None"
    and a: "a < length tasks"
    and fails: "task_outcome (deserialize_work E file_lines) (task_range tasks a) = Some (Some e)"
    and before: "\<forall>t < a. task_outcome (deserialize_work E file_lines) (task_range tasks t) = Some None"
  shows "deserialize_from_file E content max_threads hw sched = Some (Inl e)
    \<and> deserialize_from_file_parallel E content max_threads hw sched = Some (Inl e)
    \<and> (\<forall>dump heap sched' e'. serialize_to_file E dump heap max_threads hw sched' \<noteq> Some (Inl e')
          \<and> serialize_to_file_parallel E dump heap max_threads hw sched' \<noteq> Some (Inl e'))"
proof -
  have "fan_out (deserialize_work E file_lines) (length file_lines) (resolve_threads max_threads hw)
          sched (replicate (length file_lines) []) = Some (Inl e)"
    by (rule fan_out_first_error[OF threads valid[unfolded tasks] ends[unfolded tasks]
          a[unfolded tasks] fails[unfolded tasks] before[unfolded tasks]])
  then have "deserialize_from_file_parallel E content max_threads hw sched = Some (Inl e)"
    by (simp add: deserialize_from_file_parallel_def Let_def file_lines)
  moreover have "serialize_to_file_parallel E dump heap max_threads hw sched' \<noteq> Some (Inl e')"
    for dump heap sched' e'
    by (rule serialize_no_failure[OF threads])
  ultimately show ?thesis
    by (simp add: deserialize_from_file_def serialize_to_file_def)
qed

theorem first_launched_failure_surfaces_witness:
  "task_outcome (deserialize_work env0 [''a='', ''b=i:x''])
       (task_range (make_tasks 2 (resolve_threads 2 4)) 0) = Some (Some InvalidFormat)
   \<and> task_outcome (deserialize_work env0 [''a='', ''b=i:x''])
       (task_range (make_tasks 2 (resolve_threads 2 4)) 1) = Some (Some FailedToParseNumber)
   \<and> deserialize_from_file env0 (''a='' @ [CHR 0x0A] @ ''b=i:x'' @ [CHR 0x0A]) 2 4 [1, 0]
       = Some (Inl InvalidFormat)
   \<and> deserialize_from_file_parallel env0 (''a='' @ [CHR 0x0A] @ ''b=i:x'' @ [CHR 0x0A]) 2 4 [1, 0]
       = Some (Inl InvalidFormat)
   \<and> serialize_to_file env0 [(0, [(''a'', Owned (VInt 1))])] [] 2 4 [0]
       \<noteq> Some (Inl FailedToParseNumber)"
proof -
  let ?content = "''a='' @ [CHR 0x0A] @ ''b=i:x'' @ [CHR 0x0A]"
  let ?lines = "[''a='', ''b=i:x'']"
  let ?tasks = "make_tasks 2 (resolve_threads 2 4)"
  have threads: "0 < resolve_threads 2 4"
    by code_simp
  have file_lines: "?lines = split_lines ?content []"
    by code_simp
  have tasks: "?tasks = make_tasks (length ?lines) (resolve_threads 2 4)"
    by code_simp
  have valid: "valid_schedule ?tasks [1, 0]"
    by code_simp
  have ends: "\<forall>t < length ?tasks. task_outcome (deserialize_work env0 ?lines) (task_range ?tasks t) \<noteq> None"
    by code_simp
  have first: "task_outcome (deserialize_work env0 ?lines) (task_range ?tasks 0) = Some (Some InvalidFormat)"
    by code_simp
  have second: "task_outcome (deserialize_work env0 ?lines) (task_range ?tasks 1) = Some (Some FailedToParseNumber)"
    by code_simp
  have launched: "0 < length ?tasks"
    by code_simp
  have none_before: "\<forall>t < (0::nat). task_outcome (deserialize_work env0 ?lines) (task_range ?tasks t) = Some None"
    by simp
  from first_launched_failure_surfaces [OF threads file_lines tasks valid ends launched first none_before]
  have "deserialize_from_file env0 ?content 2 4 [1, 0] = Some (Inl InvalidFormat)"
    and "deserialize_from_file_parallel env0 ?content 2 4 [1, 0] = Some (Inl InvalidFormat)"
    and "serialize_to_file env0 [(0, [(''a'', Owned (VInt 1))])] [] 2 4 [0] \<noteq> Some (Inl FailedToParseNumber)"
    by blast+
  with first second show ?thesis by blast
qed

section \<open>Properties of saving a dump\<close>

lemma encode_group_length: "length (encode_group v) = 5"
  by (simp add: encode_group_def Let_def)

lemma blocks_length: "length (concat (map (\<lambda>i. encode_group (f i)) [0..<k])) = 5 * k"
  by (induction k) (simp_all add: encode_group_length)

text \<open>The two steps of \<open>pack\<close> make \<open>pack\<close>, and the first one reserves the room of its text.\<close>

lemma pack_in_two_steps:
  "(case pack_enter r of (r', passed) \<Rightarrow> if passed then pack_fill r' else r') = pack r"
  by (simp add: pack_enter_def pack_fill_def pack_def Let_def RawData_of_data_def)

lemma pack_enter_room:
  assumes "pack_enter r = (r', True)"
  shows "length (raw_encoded r') = length (raw_encoded (pack r))"
proof -
  define n where "n = length (raw_data r)"
  from assms have guard: "raw_encoded r = []" "raw_data r \<noteq> []"
    by (auto simp: pack_enter_def split: if_splits)
  have n4: "n mod 4 < 4" by simp
  have room: "length (raw_encoded r') = ((n + (4 - n mod 4) mod 4) div 4) * 5 + (if (4 - n mod 4) mod 4 > 0 then 1 else 0)"
    using assms guard by (auto simp: pack_enter_def Let_def n_def)
  have text_len: "length (raw_encoded (pack r)) = 5 * (n div 4) + (if n mod 4 > 0 then 6 else 0)"
    using guard by (simp add: pack_def Let_def blocks_length encode_group_length n_def)
  show ?thesis
  proof (cases "n mod 4 = 0")
    case True
    then have "(n + (4 - n mod 4) mod 4) div 4 = n div 4" by simp
    with True room text_len show ?thesis by simp
  next
    case False
    with n4 have pad: "(4 - n mod 4) mod 4 = 4 - n mod 4" "0 < 4 - n mod 4" by simp_all
    have "n + (4 - n mod 4) = 4 * (n div 4) + 4"
      using n4 mult_div_mod_eq[of 4 n] by linarith
    then have "(n + (4 - n mod 4)) div 4 = n div 4 + 1" by simp
    with False pad room text_len show ?thesis by simp
  qed
qed

lemma value_steps_address:
  "s \<in> set (value_steps E v) \<Longrightarrow> step_address s = Some a \<Longrightarrow> v = Shared a"
  by (cases v) auto

lemma value_steps_line: "s \<in> set (value_steps E v) \<Longrightarrow> step_line s = None"
  by (cases v) auto

lemma collection_steps_address:
  "s \<in> set (collection_steps E first c) \<Longrightarrow> step_address s = Some a \<Longrightarrow> \<exists>kv \<in> set c. snd kv = Shared a"
proof (induction c arbitrary: first)
  case Nil
  then show ?case by simp
next
  case (Cons kv c)
  from Cons.prems(1) consider
      "s = Append ((if first then [] else '','') @ fst kv @ ''='' @ [dump_type_char (snd kv)] @ '':'')"
    | "s \<in> set (value_steps E (snd kv))" | "s \<in> set (collection_steps E False c)"
    by auto
  then show ?case
  proof cases
    case 1
    with Cons.prems(2) show ?thesis by simp
  next
    case 2
    from value_steps_address[OF this Cons.prems(2)] show ?thesis by simp
  next
    case 3
    from Cons.IH[OF this Cons.prems(2)] show ?thesis by auto
  qed
qed

lemma collection_steps_line: "s \<in> set (collection_steps E first c) \<Longrightarrow> step_line s = None"
  by (induction c arbitrary: first) (auto simp: value_steps_line)

lemma task_steps_address:
  assumes "s \<in> set (task_steps E entries task)" "step_address s = Some a" "snd task \<le> length entries"
  shows "\<exists>e \<in> set entries. \<exists>kv \<in> set (snd e). snd kv = Shared a"
proof -
  from assms(1) obtain i where i: "fst task \<le> i" "i < snd task"
    and s: "s \<in> set (collection_steps E True (snd (entries ! i))) \<or> s = Store_line i"
    by (auto simp: task_steps_def)
  from s assms(2) have "s \<in> set (collection_steps E True (snd (entries ! i)))" by auto
  from collection_steps_address[OF this assms(2)]
  obtain kv where "kv \<in> set (snd (entries ! i))" "snd kv = Shared a" by blast
  moreover from i assms(3) have "entries ! i \<in> set entries" by simp
  ultimately show ?thesis by blast
qed

lemma task_steps_line:
  assumes "s \<in> set (task_steps E entries task)" "step_line s = Some i"
  shows "i \<in> set [fst task..<snd task]"
proof -
  from assms(1) obtain i' where i': "fst task \<le> i'" "i' < snd task"
    and s: "s \<in> set (collection_steps E True (snd (entries ! i'))) \<or> s = Store_line i'"
    by (auto simp: task_steps_def)
  from s assms(2) collection_steps_line[of s E True "snd (entries ! i')"] have "s = Store_line i'" by auto
  with assms(2) i' show ?thesis by simp
qed

lemma exec_alone:
  assumes "blobs m = heap" "in_pack w = False"
    and "\<And>a. step_address s = Some a \<Longrightarrow> raw_encoded (heap ! a) \<noteq> [] \<or> raw_data (heap ! a) = []"
    and "exec s m w = (m', w')"
  shows "blobs m' = heap" "in_pack w' = False" "steps_left w' = steps_left w"
    and "(result_buf w', line_buf m') = step_alone heap s (result_buf w, line_buf m)"
  using assms by (cases s; auto simp: pack_enter_def)+

lemma step_alone_length: "length (snd (step_alone heap s st)) = length (snd st)"
  by (cases s) simp_all

lemma step_alone_other: "step_line s \<noteq> Some j \<Longrightarrow> snd (step_alone heap s st) ! j = snd st ! j"
  by (cases s) simp_all

lemma step_alone_agree:
  assumes "length L = length L'" "L ! j = L' ! j"
  shows "fst (step_alone heap s (out, L)) = fst (step_alone heap s (out, L'))"
    and "length (snd (step_alone heap s (out, L))) = length (snd (step_alone heap s (out, L')))"
    and "snd (step_alone heap s (out, L)) ! j = snd (step_alone heap s (out, L')) ! j"
proof -
  show "fst (step_alone heap s (out, L)) = fst (step_alone heap s (out, L'))" by (cases s) simp_all
  show "length (snd (step_alone heap s (out, L))) = length (snd (step_alone heap s (out, L')))"
    using assms(1) by (simp add: step_alone_length)
  show "snd (step_alone heap s (out, L)) ! j = snd (step_alone heap s (out, L')) ! j"
  proof (cases s)
    case (Store_line i)
    show ?thesis
    proof (cases "i < length L")
      case True
      with assms Store_line show ?thesis by (simp add: nth_list_update)
    next
      case False
      with assms(1) have "length L \<le> i" "length L' \<le> i" by simp_all
      then have "L[i := out] = L" "L'[i := out] = L'" by (simp_all add: list_update_beyond)
      with assms Store_line show ?thesis by simp
    qed
  qed (use assms in simp_all)
qed

lemma run_alone_agree:
  "length L = length L' \<Longrightarrow> L ! j = L' ! j
     \<Longrightarrow> snd (run_alone heap steps (out, L)) ! j = snd (run_alone heap steps (out, L')) ! j"
proof (induction steps arbitrary: out L L')
  case Nil
  then show ?case by (simp add: run_alone_def)
next
  case (Cons s steps)
  obtain o1 L1 where st1: "step_alone heap s (out, L) = (o1, L1)" by (cases "step_alone heap s (out, L)")
  obtain o2 L2 where st2: "step_alone heap s (out, L') = (o2, L2)" by (cases "step_alone heap s (out, L')")
  from step_alone_agree[OF Cons.prems, of heap s out] st1 st2
  have "o1 = o2" "length L1 = length L2" "L1 ! j = L2 ! j" by simp_all
  with Cons.IH[of L1 L2 o1] st1 st2 show ?case by (simp add: run_alone_def)
qed

lemma run_alone_append: "run_alone heap (xs @ ys) st = run_alone heap ys (run_alone heap xs st)"
  by (simp add: run_alone_def)

lemma deref_type_char: "get_type_char (deref heap v) = dump_type_char v"
  by (cases v) simp_all

lemma run_alone_value:
  assumes "packed_value heap v"
  shows "run_alone heap (value_steps E v) (out, L) = (out @ serialize_value E (deref heap v), L)"
proof (cases v)
  case (Owned x)
  then show ?thesis by (simp add: run_alone_def)
next
  case (Shared a)
  with assms have "pack (heap ! a) = heap ! a" by (simp add: pack_def)
  with Shared show ?thesis by (simp add: run_alone_def serialize_raw_def)
qed

lemma run_alone_collection:
  assumes "\<forall>kv \<in> set c. packed_value heap (snd kv)"
  shows "run_alone heap (collection_steps E first c) (out, L)
     = (out @ join_comma first (serialize_entry E) (map (\<lambda>kv. (fst kv, deref heap (snd kv))) c), L)"
  using assms
proof (induction c arbitrary: first out)
  case Nil
  then show ?case by (simp add: run_alone_def)
next
  case (Cons kv c)
  let ?head = "(if first then [] else '','') @ fst kv @ ''='' @ [dump_type_char (snd kv)] @ '':''"
  have "run_alone heap (collection_steps E first (kv # c)) (out, L)
      = run_alone heap (collection_steps E False c)
          (run_alone heap (value_steps E (snd kv)) (run_alone heap [Append ?head] (out, L)))"
    using run_alone_append[of heap "Append ?head # value_steps E (snd kv)" "collection_steps E False c" "(out, L)"]
          run_alone_append[of heap "[Append ?head]" "value_steps E (snd kv)" "(out, L)"]
    by simp
  also have "run_alone heap [Append ?head] (out, L) = (out @ ?head, L)" by (simp add: run_alone_def)
  also have "run_alone heap (value_steps E (snd kv)) (out @ ?head, L)
      = ((out @ ?head) @ serialize_value E (deref heap (snd kv)), L)"
    by (rule run_alone_value) (use Cons.prems in simp)
  also have "run_alone heap (collection_steps E False c) ((out @ ?head) @ serialize_value E (deref heap (snd kv)), L)
      = (((out @ ?head) @ serialize_value E (deref heap (snd kv)))
           @ join_comma False (serialize_entry E) (map (\<lambda>kv. (fst kv, deref heap (snd kv))) c), L)"
    by (rule Cons.IH) (use Cons.prems in simp)
  finally have run: "run_alone heap (collection_steps E first (kv # c)) (out, L)
      = (((out @ ?head) @ serialize_value E (deref heap (snd kv)))
           @ join_comma False (serialize_entry E) (map (\<lambda>kv. (fst kv, deref heap (snd kv))) c), L)" .
  have entry: "serialize_entry E (fst kv, deref heap (snd kv))
      = fst kv @ ''='' @ [dump_type_char (snd kv)] @ '':'' @ serialize_value E (deref heap (snd kv))"
    by (simp add: serialize_entry_def deref_type_char)
  show ?case by (simp only: run list.map join_comma.simps entry) simp
qed

lemma run_alone_records:
  assumes "\<forall>i \<in> set is. \<forall>kv \<in> set (snd (entries ! i)). packed_value heap (snd kv)"
  shows "fst (run_alone heap (concat (map (\<lambda>i. collection_steps E True (snd (entries ! i)) @ [Store_line i]) is)) ([], L)) = []
    \<and> length (snd (run_alone heap (concat (map (\<lambda>i. collection_steps E True (snd (entries ! i)) @ [Store_line i]) is)) ([], L))) = length L
    \<and> (\<forall>j \<in> set is. j < length L \<longrightarrow>
          snd (run_alone heap (concat (map (\<lambda>i. collection_steps E True (snd (entries ! i)) @ [Store_line i]) is)) ([], L)) ! j
            = record_line E heap (snd (entries ! j)))"
  using assms
proof (induction "is" rule: rev_induct)
  case Nil
  then show ?case by (simp add: run_alone_def)
next
  case (snoc i "is")
  let ?block = "\<lambda>i. collection_steps E True (snd (entries ! i)) @ [Store_line i]"
  obtain o1 L1 where before: "run_alone heap (concat (map ?block is)) ([], L) = (o1, L1)"
    by (cases "run_alone heap (concat (map ?block is)) ([], L)")
  from snoc.IH snoc.prems before have o1: "o1 = []" and len1: "length L1 = length L"
    and slots1: "\<forall>j \<in> set is. j < length L \<longrightarrow> L1 ! j = record_line E heap (snd (entries ! j))"
    by simp_all
  have packed: "\<forall>kv \<in> set (snd (entries ! i)). packed_value heap (snd kv)" using snoc.prems by simp
  have "run_alone heap (concat (map ?block (is @ [i]))) ([], L)
      = run_alone heap [Store_line i] (run_alone heap (collection_steps E True (snd (entries ! i))) (o1, L1))"
    using run_alone_append[of heap "concat (map ?block is)" "?block i" "([], L)"]
          run_alone_append[of heap "collection_steps E True (snd (entries ! i))" "[Store_line i]" "(o1, L1)"]
    by (simp add: before)
  also have "run_alone heap (collection_steps E True (snd (entries ! i))) (o1, L1)
      = (record_line E heap (snd (entries ! i)), L1)"
    by (simp add: run_alone_collection[OF packed] o1 record_line_def serialize_to_string_def)
  also have "run_alone heap [Store_line i] (record_line E heap (snd (entries ! i)), L1)
      = ([], L1[i := record_line E heap (snd (entries ! i))])"
    by (simp add: run_alone_def)
  finally have after: "run_alone heap (concat (map ?block (is @ [i]))) ([], L)
      = ([], L1[i := record_line E heap (snd (entries ! i))])" .
  have "\<forall>j \<in> set (is @ [i]). j < length L \<longrightarrow>
      L1[i := record_line E heap (snd (entries ! i))] ! j = record_line E heap (snd (entries ! j))"
  proof (intro ballI impI)
    fix j assume j: "j \<in> set (is @ [i])" and jl: "j < length L"
    show "L1[i := record_line E heap (snd (entries ! i))] ! j = record_line E heap (snd (entries ! j))"
    proof (cases "j = i")
      case True
      with jl len1 show ?thesis by simp
    next
      case False
      with j have "j \<in> set is" by simp
      with slots1 jl False show ?thesis by simp
    qed
  qed
  with after len1 show ?case by simp
qed

lemma save_invI:
  assumes "blobs m = heap" "length ws = length tasks" "length (line_buf m) = length entries"
    and "\<And>t. t < length tasks \<Longrightarrow> in_pack (ws ! t) = False"
    and "\<And>t. t < length tasks \<Longrightarrow>
           steps_left (ws ! t) = drop (count_list sched t) (task_steps E entries (tasks ! t))"
    and "\<And>t j. t < length tasks \<Longrightarrow> j \<in> set (task_range tasks t) \<Longrightarrow>
           snd (run_alone heap (steps_left (ws ! t)) (result_buf (ws ! t), line_buf m)) ! j
             = record_line E heap (snd (entries ! j))"
  shows "save_inv E heap entries tasks sched (m, ws)"
  unfolding save_inv_def fst_conv snd_conv using assms by blast

lemma save_inv_init:
  assumes packed: "packed_heap heap entries"
    and tasks: "tasks = make_tasks (length entries) mt"
  shows "save_inv E heap entries tasks []
           (\<lparr>blobs = heap, line_buf = replicate (length entries) []\<rparr>,
            map (\<lambda>task. \<lparr>steps_left = task_steps E entries task, result_buf = [], in_pack = False\<rparr>) tasks)"
proof -
  have slot: "snd (run_alone heap (task_steps E entries (tasks ! t)) ([], replicate (length entries) [])) ! j
        = record_line E heap (snd (entries ! j))"
    if t: "t < length tasks" and j: "j \<in> set (task_range tasks t)" for t j
  proof -
    from task_range_bound[OF t[unfolded tasks] j[unfolded tasks]] have jn: "j < length entries" .
    have "\<forall>i \<in> set (task_range tasks t). \<forall>kv \<in> set (snd (entries ! i)). packed_value heap (snd kv)"
    proof
      fix i assume "i \<in> set (task_range tasks t)"
      from task_range_bound[OF t[unfolded tasks] this[unfolded tasks]] have "entries ! i \<in> set entries" by simp
      with packed show "\<forall>kv \<in> set (snd (entries ! i)). packed_value heap (snd kv)"
        by (simp add: packed_heap_def)
    qed
    from run_alone_records[OF this, of E "replicate (length entries) []"] j jn
    show ?thesis by (simp add: task_steps_def task_range_def)
  qed
  show ?thesis
    unfolding save_inv_def by (simp add: slot)
qed

lemma save_inv_step:
  assumes inv: "save_inv E heap entries tasks sched st"
    and packed: "packed_heap heap entries"
    and tasks: "tasks = make_tasks (length entries) mt"
  shows "save_inv E heap entries tasks (sched @ [u]) (run_step u st)"
proof -
  obtain m ws where st: "st = (m, ws)" by (cases st)
  from inv have heap: "blobs m = heap" and lenw: "length ws = length tasks"
    and lenl: "length (line_buf m) = length entries"
    and workers: "\<forall>t < length tasks.
           in_pack (ws ! t) = False
           \<and> steps_left (ws ! t) = drop (count_list sched t) (task_steps E entries (tasks ! t))
           \<and> (\<forall>j \<in> set (task_range tasks t).
                 snd (run_alone heap (steps_left (ws ! t)) (result_buf (ws ! t), line_buf m)) ! j
                   = record_line E heap (snd (entries ! j)))"
    unfolding save_inv_def st fst_conv snd_conv by blast+
  show ?thesis
  proof (cases "u < length tasks")
    case False
    then have same: "run_step u st = (m, ws)" by (simp add: run_step_def st lenw)
    from False have cnt: "count_list (sched @ [u]) t = count_list sched t" if "t < length tasks" for t
      using that by auto
    show ?thesis unfolding same
    proof (rule save_invI)
      fix t assume t: "t < length tasks"
      from workers t show "in_pack (ws ! t) = False" by blast
      from workers t have "steps_left (ws ! t) = drop (count_list sched t) (task_steps E entries (tasks ! t))"
        by blast
      then show "steps_left (ws ! t) = drop (count_list (sched @ [u]) t) (task_steps E entries (tasks ! t))"
        by (simp only: cnt[OF t])
      fix j assume "j \<in> set (task_range tasks t)"
      with workers t show "snd (run_alone heap (steps_left (ws ! t)) (result_buf (ws ! t), line_buf m)) ! j
             = record_line E heap (snd (entries ! j))" by blast
    qed (rule heap lenw lenl)+
  next
    case u: True
    let ?prog = "task_steps E entries (tasks ! u)"
    let ?k = "count_list sched u"
    from workers u have wu: "in_pack (ws ! u) = False" "steps_left (ws ! u) = drop ?k ?prog"
      by blast+
    from workers u have slots_u: "\<forall>j \<in> set (task_range tasks u).
          snd (run_alone heap (steps_left (ws ! u)) (result_buf (ws ! u), line_buf m)) ! j
            = record_line E heap (snd (entries ! j))"
      by blast
    have count_u: "count_list (sched @ [u]) u = Suc ?k" by simp
    have count_other: "count_list (sched @ [u]) t = count_list sched t" if "t \<noteq> u" for t
      using that by simp
    show ?thesis
    proof (cases "steps_left (ws ! u)")
      case Nil
      then have same: "run_step u st = (m, ws)" using u by (simp add: run_step_def st lenw)
      from Nil wu(2) have "drop (Suc ?k) ?prog = []" by simp
      with Nil have left: "steps_left (ws ! u) = drop (count_list (sched @ [u]) u) ?prog"
        by (simp only: count_u)
      show ?thesis unfolding same
      proof (rule save_invI)
        fix t assume t: "t < length tasks"
        from workers t show "in_pack (ws ! t) = False" by blast
        show "steps_left (ws ! t) = drop (count_list (sched @ [u]) t) (task_steps E entries (tasks ! t))"
        proof (cases "t = u")
          case True
          with left show ?thesis by simp
        next
          case False
          from workers t have "steps_left (ws ! t) = drop (count_list sched t) (task_steps E entries (tasks ! t))"
            by blast
          then show ?thesis by (simp only: count_other[OF False])
        qed
        fix j assume "j \<in> set (task_range tasks t)"
        with workers t show "snd (run_alone heap (steps_left (ws ! t)) (result_buf (ws ! t), line_buf m)) ! j
             = record_line E heap (snd (entries ! j))" by blast
      qed (rule heap lenw lenl)+
    next
      case (Cons s rest)
      obtain m' w' where ex: "exec s m ((ws ! u)\<lparr>steps_left := rest\<rparr>) = (m', w')"
        by (cases "exec s m ((ws ! u)\<lparr>steps_left := rest\<rparr>)")
      have stepped: "run_step u st = (m', ws[u := w'])"
        using u Cons ex by (simp add: run_step_def st lenw)
      from Cons wu(2) have "s \<in> set (drop ?k ?prog)" by simp
      then have s_in: "s \<in> set ?prog" by (rule in_set_dropD)
      have bound: "snd (tasks ! u) \<le> length entries"
        using make_tasks_nth(1)[OF u[unfolded tasks]] by (simp add: tasks)
      have addr: "raw_encoded (heap ! a) \<noteq> [] \<or> raw_data (heap ! a) = []" if "step_address s = Some a" for a
      proof -
        from task_steps_address[OF s_in that bound] obtain e kv where
          e: "e \<in> set entries" and kv: "kv \<in> set (snd e)" and shared: "snd kv = Shared a" by blast
        from packed e kv have "packed_value heap (snd kv)" unfolding packed_heap_def by blast
        then show ?thesis by (simp add: shared)
      qed
      have w0: "in_pack ((ws ! u)\<lparr>steps_left := rest\<rparr>) = False" using wu(1) by simp
      from exec_alone[OF heap w0 addr ex]
      have heap': "blobs m' = heap" and pack': "in_pack w' = False" and left': "steps_left w' = rest"
        and alone: "(result_buf w', line_buf m') = step_alone heap s (result_buf (ws ! u), line_buf m)"
        by simp_all
      from alone have lb: "line_buf m' = snd (step_alone heap s (result_buf (ws ! u), line_buf m))"
        by (metis snd_conv)
      have lenl': "length (line_buf m') = length entries"
        unfolding lb using lenl by (simp add: step_alone_length)
      from Cons wu(2) have "drop (Suc ?k) ?prog = rest"
        by (metis drop_Suc tl_drop list.sel(3))
      with left' have left_u: "steps_left w' = drop (count_list (sched @ [u]) u) ?prog"
        by (simp only: count_u)
      have slots_u': "snd (run_alone heap (steps_left w') (result_buf w', line_buf m')) ! j
            = record_line E heap (snd (entries ! j))" if "j \<in> set (task_range tasks u)" for j
      proof -
        have "run_alone heap (steps_left (ws ! u)) (result_buf (ws ! u), line_buf m)
            = run_alone heap (steps_left w') (result_buf w', line_buf m')"
          by (simp add: Cons left' alone run_alone_def)
        with slots_u that show ?thesis by simp
      qed
      have other: "snd (run_alone heap (steps_left (ws ! t)) (result_buf (ws ! t), line_buf m')) ! j
                   = record_line E heap (snd (entries ! j))"
        if t: "t < length tasks" and tu: "t \<noteq> u" and j: "j \<in> set (task_range tasks t)" for t j
      proof -
        have disjoint: "set (task_range tasks t) \<inter> set (task_range tasks u) = {}"
        proof (cases "t < u")
          case True
          from task_ranges_disjoint[OF t[unfolded tasks] u[unfolded tasks] True] show ?thesis
            by (simp add: tasks)
        next
          case False
          with tu have "u < t" by simp
          from task_ranges_disjoint[OF u[unfolded tasks] t[unfolded tasks] this] show ?thesis
            by (auto simp: tasks)
        qed
        have "step_line s \<noteq> Some j"
        proof
          assume "step_line s = Some j"
          from task_steps_line[OF s_in this] have "j \<in> set (task_range tasks u)"
            by (simp add: task_range_def)
          with j disjoint show False by blast
        qed
        then have same_j: "line_buf m' ! j = line_buf m ! j"
          unfolding lb by (simp add: step_alone_other)
        have "length (line_buf m') = length (line_buf m)" using lenl lenl' by simp
        from run_alone_agree[OF this same_j, of heap "steps_left (ws ! t)" "result_buf (ws ! t)"]
        have "snd (run_alone heap (steps_left (ws ! t)) (result_buf (ws ! t), line_buf m')) ! j
            = snd (run_alone heap (steps_left (ws ! t)) (result_buf (ws ! t), line_buf m)) ! j" .
        moreover from workers t j
        have "snd (run_alone heap (steps_left (ws ! t)) (result_buf (ws ! t), line_buf m)) ! j
            = record_line E heap (snd (entries ! j))" by blast
        ultimately show ?thesis by simp
      qed
      show ?thesis unfolding stepped
      proof (rule save_invI)
        show "blobs m' = heap" by (rule heap')
        show "length (ws[u := w']) = length tasks" using lenw by simp
        show "length (line_buf m') = length entries" by (rule lenl')
      next
        fix t assume t: "t < length tasks"
        have nth_u: "ws[u := w'] ! u = w'" using u lenw by simp
        have nth_other: "ws[u := w'] ! t = ws ! t" if "t \<noteq> u" using that by simp
        show "in_pack (ws[u := w'] ! t) = False"
        proof (cases "t = u")
          case True
          with nth_u pack' show ?thesis by simp
        next
          case False
          from workers t have "in_pack (ws ! t) = False" by blast
          with nth_other[OF False] show ?thesis by simp
        qed
        show "steps_left (ws[u := w'] ! t) = drop (count_list (sched @ [u]) t) (task_steps E entries (tasks ! t))"
        proof (cases "t = u")
          case True
          with nth_u left_u show ?thesis by simp
        next
          case False
          from workers t have "steps_left (ws ! t) = drop (count_list sched t) (task_steps E entries (tasks ! t))"
            by blast
          with nth_other[OF False] show ?thesis by (simp only: count_other[OF False])
        qed
        fix j assume j: "j \<in> set (task_range tasks t)"
        show "snd (run_alone heap (steps_left (ws[u := w'] ! t)) (result_buf (ws[u := w'] ! t), line_buf m')) ! j
             = record_line E heap (snd (entries ! j))"
        proof (cases "t = u")
          case True
          with nth_u slots_u'[of j] j show ?thesis by simp
        next
          case False
          from other[OF t False j] nth_other[OF False] show ?thesis by simp
        qed
      qed
    qed
  qed
qed

lemma save_inv_fold:
  assumes packed: "packed_heap heap entries"
    and tasks: "tasks = make_tasks (length entries) mt"
  shows "save_inv E heap entries tasks sched st
     \<Longrightarrow> save_inv E heap entries tasks (sched @ later) (fold run_step later st)"
proof (induction later arbitrary: sched st)
  case Nil
  then show ?case by simp
next
  case (Cons u later)
  from save_inv_step[OF Cons.prems packed tasks, of u]
  have "save_inv E heap entries tasks (sched @ [u]) (run_step u st)" .
  from Cons.IH[OF this] show ?case by simp
qed

text \<open>
  When no blob held through the heap needs packing, every run in which each worker
  gets its steps writes the lines of the records in ascending order of id, whatever
  the positive thread count and the interleaving of the workers.
\<close>

lemma serialize_to_file_value:
  assumes threads: "0 < resolve_threads max_threads hw"
    and packed: "packed_heap heap dump"
    and complete: "\<forall>t < length (make_tasks (length dump) (resolve_threads max_threads hw)).
        length (task_steps E (sort_key fst dump) (make_tasks (length dump) (resolve_threads max_threads hw) ! t))
          \<le> count_list sched t"
  shows "serialize_to_file E dump heap max_threads hw sched
           = Some (Inr (write_lines (map (\<lambda>e. record_line E heap (snd e)) (sort_key fst dump))))"
proof -
  define entries where "entries = sort_key fst dump"
  define tasks where "tasks = make_tasks (length entries) (resolve_threads max_threads hw)"
  define final where "final = fold run_step sched
      (\<lparr>blobs = heap, line_buf = replicate (length entries) []\<rparr>,
       map (\<lambda>task. \<lparr>steps_left = task_steps E entries task, result_buf = [], in_pack = False\<rparr>) tasks)"
  have len: "length entries = length dump" by (simp add: entries_def)
  have packed': "packed_heap heap entries"
    using packed by (simp add: packed_heap_def entries_def)
  from save_inv_fold[OF packed' tasks_def save_inv_init[OF packed' tasks_def], of E sched]
  have inv: "save_inv E heap entries tasks sched final" by (simp add: final_def)
  then have lenw: "length (snd final) = length tasks"
    and lenl: "length (line_buf (fst final)) = length entries"
    and workers: "\<forall>t < length tasks.
           steps_left (snd final ! t) = drop (count_list sched t) (task_steps E entries (tasks ! t))
           \<and> (\<forall>j \<in> set (task_range tasks t).
                 snd (run_alone heap (steps_left (snd final ! t)) (result_buf (snd final ! t), line_buf (fst final))) ! j
                   = record_line E heap (snd (entries ! j)))"
    unfolding save_inv_def by blast+
  have finished: "steps_left (snd final ! t) = []" if "t < length tasks" for t
    using workers complete that by (simp add: tasks_def entries_def len)
  then have all_finished: "list_all (\<lambda>w. steps_left w = []) (snd final)"
    by (simp add: list_all_length lenw)
  have "line_buf (fst final) = map (\<lambda>e. record_line E heap (snd e)) entries"
  proof (rule nth_equalityI)
    show "length (line_buf (fst final)) = length (map (\<lambda>e. record_line E heap (snd e)) entries)"
      using lenl by simp
  next
    fix j assume "j < length (line_buf (fst final))"
    with lenl have j: "j < length entries" by simp
    from make_tasks_cover[OF threads j] obtain t where
      t: "t < length tasks" and "fst (tasks ! t) \<le> j" "j < snd (tasks ! t)"
      by (auto simp: tasks_def)
    then have "j \<in> set (task_range tasks t)" by (simp add: task_range_def)
    with workers t
    have "snd (run_alone heap (steps_left (snd final ! t)) (result_buf (snd final ! t), line_buf (fst final))) ! j
        = record_line E heap (snd (entries ! j))" by blast
    then have "line_buf (fst final) ! j = record_line E heap (snd (entries ! j))"
      by (simp add: finished[OF t] run_alone_def)
    with j show "line_buf (fst final) ! j = map (\<lambda>e. record_line E heap (snd e)) entries ! j" by simp
  qed
  with all_finished threads show ?thesis
    by (simp add: serialize_to_file_def serialize_to_file_parallel_def Let_def
                  entries_def[symmetric] tasks_def[symmetric] final_def[symmetric])
qed

text \<open>
  So it is for a dump of three records, two of which hold one packed blob, with one
  thread, with two, and with the four of the hardware.
\<close>

lemma serialize_to_file_value_example:
  "serialize_to_file env0
       [(5, [(''a'', Owned (VInt 1)), (''r'', Shared 0)]), (2, [(''b'', Shared 0)]), (9, [])]
       [RawData_of_encoded ''0rJua''] 1 4 (replicate 17 0)
     = Some (Inr (''b=r:'' @ [CHR 0x22] @ ''0rJua'' @ [CHR 0x22, CHR 0x0A]
                  @ ''a=i:1,r=r:'' @ [CHR 0x22] @ ''0rJua'' @ [CHR 0x22, CHR 0x0A] @ [CHR 0x0A]))
   \<and> serialize_to_file env0
       [(5, [(''a'', Owned (VInt 1)), (''r'', Shared 0)]), (2, [(''b'', Shared 0)]), (9, [])]
       [RawData_of_encoded ''0rJua''] 2 4 (replicate 5 0 @ [1] @ replicate 11 0)
     = Some (Inr (''b=r:'' @ [CHR 0x22] @ ''0rJua'' @ [CHR 0x22, CHR 0x0A]
                  @ ''a=i:1,r=r:'' @ [CHR 0x22] @ ''0rJua'' @ [CHR 0x22, CHR 0x0A] @ [CHR 0x0A]))
   \<and> serialize_to_file env0
       [(5, [(''a'', Owned (VInt 1)), (''r'', Shared 0)]), (2, [(''b'', Shared 0)]), (9, [])]
       [RawData_of_encoded ''0rJua''] 0 4 (replicate 3 1 @ replicate 7 0 @ [2] @ replicate 6 1)
     = Some (Inr (''b=r:'' @ [CHR 0x22] @ ''0rJua'' @ [CHR 0x22, CHR 0x0A]
                  @ ''a=i:1,r=r:'' @ [CHR 0x22] @ ''0rJua'' @ [CHR 0x22, CHR 0x0A] @ [CHR 0x0A]))"
proof -
  let ?dump = "[(5, [(''a'', Owned (VInt 1)), (''r'', Shared 0)]), (2, [(''b'', Shared 0)]), (9, [])]
      :: (unit, unit) SharedDump"
  let ?heap = "[RawData_of_encoded ''0rJua'']"
  have packed: "packed_heap ?heap ?dump"
    by code_simp
  have t1: "0 < resolve_threads 1 4"
    "\<forall>t < length (make_tasks (length ?dump) (resolve_threads 1 4)).
        length (task_steps env0 (sort_key fst ?dump) (make_tasks (length ?dump) (resolve_threads 1 4) ! t))
          \<le> count_list (replicate 17 0) t"
    by code_simp+
  have t2: "0 < resolve_threads 2 4"
    "\<forall>t < length (make_tasks (length ?dump) (resolve_threads 2 4)).
        length (task_steps env0 (sort_key fst ?dump) (make_tasks (length ?dump) (resolve_threads 2 4) ! t))
          \<le> count_list (replicate 5 0 @ [1] @ replicate 11 0) t"
    by code_simp+
  have t0: "0 < resolve_threads 0 4"
    "\<forall>t < length (make_tasks (length ?dump) (resolve_threads 0 4)).
        length (task_steps env0 (sort_key fst ?dump) (make_tasks (length ?dump) (resolve_threads 0 4) ! t))
          \<le> count_list (replicate 3 1 @ replicate 7 0 @ [2] @ replicate 6 1) t"
    by code_simp+
  have written: "write_lines (map (\<lambda>e. record_line env0 ?heap (snd e)) (sort_key fst ?dump))
     = ''b=r:'' @ [CHR 0x22] @ ''0rJua'' @ [CHR 0x22, CHR 0x0A]
         @ ''a=i:1,r=r:'' @ [CHR 0x22] @ ''0rJua'' @ [CHR 0x22, CHR 0x0A] @ [CHR 0x0A]"
    by code_simp
  from serialize_to_file_value[OF t1(1) packed t1(2)] serialize_to_file_value[OF t2(1) packed t2(2)]
       serialize_to_file_value[OF t0(1) packed t0(2)]
  show ?thesis by (simp only: written)
qed

text \<open>
  Claim C7 fails on the code, on two inputs. Two records hold one blob of the bytes
  1, 2, 3, 4, not yet packed. With one thread the blob is packed at the first record
  and both lines carry its text. With two threads the second worker may reach \<^verbatim>\<open>pack\<close> while the first
  is between \<^verbatim>\<open>encoded_.resize\<close> and the loop that writes the text: it finds the text
  not empty, returns at the guard and writes the five NUL characters of the resized
  string into its line. And with the hardware's thread count, on a host where
  \<^verbatim>\<open>hardware_concurrency\<close> answers 0, the chunk size is a division by zero, while one
  thread writes the file.
\<close>

theorem thread_count_changes_output:
  "serialize_to_file env0 [(0, [(''a'', Shared 0)]), (1, [(''b'', Shared 0)])]
       [RawData_of_data [1, 2, 3, 4]] 1 4 (replicate 14 0)
     = Some (Inr (''a=r:'' @ [CHR 0x22] @ ''0rJua'' @ [CHR 0x22, CHR 0x0A]
                  @ ''b=r:'' @ [CHR 0x22] @ ''0rJua'' @ [CHR 0x22, CHR 0x0A]))
   \<and> serialize_to_file env0 [(0, [(''a'', Shared 0)]), (1, [(''b'', Shared 0)])]
       [RawData_of_data [1, 2, 3, 4]] 2 4 (replicate 3 0 @ replicate 7 1 @ replicate 4 0)
     = Some (Inr (''a=r:'' @ [CHR 0x22] @ ''0rJua'' @ [CHR 0x22, CHR 0x0A]
                  @ ''b=r:'' @ [CHR 0x22] @ replicate 5 (CHR 0x00) @ [CHR 0x22, CHR 0x0A]))
   \<and> serialize_to_file env0 [(0, [(''a'', Owned (VInt 1))])] [] 1 0 (replicate 3 0)
     = Some (Inr (''a=i:1'' @ [CHR 0x0A]))
   \<and> serialize_to_file env0 [(0, [(''a'', Owned (VInt 1))])] [] 0 0 []
     = Some (Inl DivisionByZero)"
  by code_simp

theorem thread_count_changes_output_witness:
  "serialize_to_file env0 [(0, [(''a'', Shared 0)]), (1, [(''b'', Shared 0)])]
       [RawData_of_data [1, 2, 3, 4]] 1 4 (replicate 14 0)
     \<noteq> serialize_to_file env0 [(0, [(''a'', Shared 0)]), (1, [(''b'', Shared 0)])]
       [RawData_of_data [1, 2, 3, 4]] 2 4 (replicate 3 0 @ replicate 7 1 @ replicate 4 0)
   \<and> serialize_to_file env0 [(0, [(''a'', Owned (VInt 1))])] [] 1 0 (replicate 3 0)
     \<noteq> serialize_to_file env0 [(0, [(''a'', Owned (VInt 1))])] [] 0 0 []"
proof -
  let ?dump = "[(0, [(''a'', Shared 0)]), (1, [(''b'', Shared 0)])] :: (unit, unit) SharedDump"
  let ?small = "[(0, [(''a'', Owned (VInt 1))])] :: (unit, unit) SharedDump"
  from thread_count_changes_output
  have one: "serialize_to_file env0 ?dump [RawData_of_data [1, 2, 3, 4]] 1 4 (replicate 14 0)
      = Some (Inr (''a=r:'' @ [CHR 0x22] @ ''0rJua'' @ [CHR 0x22, CHR 0x0A]
                  @ ''b=r:'' @ [CHR 0x22] @ ''0rJua'' @ [CHR 0x22, CHR 0x0A]))"
    and two: "serialize_to_file env0 ?dump [RawData_of_data [1, 2, 3, 4]] 2 4
        (replicate 3 0 @ replicate 7 1 @ replicate 4 0)
      = Some (Inr (''a=r:'' @ [CHR 0x22] @ ''0rJua'' @ [CHR 0x22, CHR 0x0A]
                  @ ''b=r:'' @ [CHR 0x22] @ replicate 5 (CHR 0x00) @ [CHR 0x22, CHR 0x0A]))"
    and given: "serialize_to_file env0 ?small [] 1 0 (replicate 3 0) = Some (Inr (''a=i:1'' @ [CHR 0x0A]))"
    and default: "serialize_to_file env0 ?small [] 0 0 [] = Some (Inl DivisionByZero)"
    by blast+
  have differ: "''0rJua'' \<noteq> replicate 5 (CHR 0x00)"
    by code_simp
  show ?thesis
    unfolding one two given default using differ by simp
qed

section \<open>Properties of loading a file\<close>

lemma split_lines_spec: "split_lines content cur = filter (\<lambda>l. l \<noteq> []) (spec_lines content cur)"
  by (induction content cur rule: split_lines.induct) auto

lemma split_lines_nonempty: "[] \<notin> set (split_lines content cur)"
  by (simp add: split_lines_spec)

lemma update_fresh: "k \<notin> fst ` set al \<Longrightarrow> AList.update k v al = al @ [(k, v)]"
  by (induction al) auto

lemma build_dump_prefix:
  "k \<le> length cs \<Longrightarrow>
   fold (\<lambda>i dump. if cs ! i \<noteq> [] then dump_add i (cs ! i) dump else dump) [0..<k] []
     = map (\<lambda>i. (i, cs ! i)) (filter (\<lambda>i. cs ! i \<noteq> []) [0..<k])"
proof (induction k)
  case 0
  then show ?case by simp
next
  case (Suc k)
  then have IH: "fold (\<lambda>i dump. if cs ! i \<noteq> [] then dump_add i (cs ! i) dump else dump) [0..<k] []
     = map (\<lambda>i. (i, cs ! i)) (filter (\<lambda>i. cs ! i \<noteq> []) [0..<k])" by simp
  have fresh: "k \<notin> fst ` set (map (\<lambda>i. (i, cs ! i)) (filter (\<lambda>i. cs ! i \<noteq> []) [0..<k]))"
    by auto
  show ?case
    by (simp add: IH dump_add_def update_fresh[OF fresh])
qed

lemma build_dump_eq:
  "build_dump cs = map (\<lambda>i. (i, cs ! i)) (filter (\<lambda>i. cs ! i \<noteq> []) [0..<length cs])"
  unfolding build_dump_def by (rule build_dump_prefix) simp

lemma build_dump_lookup:
  "map_of (build_dump cs) i = (if i < length cs \<and> cs ! i \<noteq> [] then Some (cs ! i) else None)"
proof -
  have "map_of (map (\<lambda>i. (i, cs ! i)) xs) i = (if i \<in> set xs then Some (cs ! i) else None)" for xs
    by (induction xs) auto
  then show ?thesis by (auto simp: build_dump_eq)
qed

text \<open>
  Claim C3, as stated, fails. In the first file the third line (index 2) holds the
  record of \<open>b\<close>, after an empty line; it is loaded under id 1, and id 2 is not used.
  In the second file both lines are non-empty, the first has no \<open>=\<close> and gives an empty
  record; the ids of the dump are 1 alone, not 0 and 1.
\<close>

theorem ids_are_not_line_indices:
  "spec_lines (''a=i:1'' @ [CHR 0x0A, CHR 0x0A] @ ''b=i:2'' @ [CHR 0x0A]) [] = [''a=i:1'', [], ''b=i:2'']
   \<and> deserialize_from_file env0 (''a=i:1'' @ [CHR 0x0A, CHR 0x0A] @ ''b=i:2'' @ [CHR 0x0A]) 1 1 [0]
       = Some (Inr [(0, [(''a'', VInt 1)]), (1, [(''b'', VInt 2)])])
   \<and> spec_lines (''x'' @ [CHR 0x0A] @ ''b=i:2'' @ [CHR 0x0A]) [] = [''x'', ''b=i:2'']
   \<and> deserialize_from_file env0 (''x'' @ [CHR 0x0A] @ ''b=i:2'' @ [CHR 0x0A]) 1 1 [0]
       = Some (Inr [(1, [(''b'', VInt 2)])])"
  by code_simp

text \<open>
  Claim C3, amended. The lines that \<^verbatim>\<open>deserialize_from_file\<close> parses are the non-empty
  lines of the file, in order; empty lines are dropped before any index is given. When
  the load succeeds, every such line at position \<open>i\<close> parses to a record, which the dump
  holds under id \<open>i\<close> if it is not empty and not at all if it is empty; the dump has no
  other id, and no id twice. The ids held before the last save play no part.
\<close>

theorem ids_are_positions_among_nonempty_lines:
  assumes res: "deserialize_from_file E content max_threads hw sched = Some (Inr dump)"
    and valid: "valid_schedule (make_tasks (length (split_lines content []))
                  (resolve_threads max_threads hw)) sched"
  shows "split_lines content [] = filter (\<lambda>l. l \<noteq> []) (spec_lines content [])
    \<and> distinct (map fst dump)
    \<and> (\<forall>i < length (split_lines content []).
         \<exists>c. deserialize_line E (split_lines content [] ! i) = Some (Inr c)
           \<and> map_of dump i = (if c = [] then None else Some c))
    \<and> (\<forall>i \<ge> length (split_lines content []). map_of dump i = None)"
proof -
  let ?lines = "split_lines content []"
  let ?work = "deserialize_work E ?lines"
  let ?buf = "replicate (length ?lines) [] :: ('a, 'b) FonCollection list"
  from res obtain cs where
    fan: "fan_out ?work (length ?lines) (resolve_threads max_threads hw) sched ?buf = Some (Inr cs)"
    and dump: "dump = build_dump cs"
    by (auto simp: deserialize_from_file_def deserialize_from_file_parallel_def Let_def
        split: option.splits sum.splits)
  have len0: "length ?buf = length ?lines" by simp
  from fan_out_result[OF valid len0 fan]
  have len: "length cs = length ?lines" and slots: "\<forall>i < length ?lines. slot_ok ?work ?buf cs i"
    by blast+
  have parsed: "\<exists>c. deserialize_line E (?lines ! i) = Some (Inr c) \<and> cs ! i = c" if i: "i < length ?lines" for i
  proof -
    from i have "?lines ! i \<in> set ?lines" by simp
    with split_lines_nonempty[of content "[]"] have ne: "?lines ! i \<noteq> []" by metis
    from slots i obtain w where w: "?work i = Some (Inr w)"
      and val: "cs ! i = (case w of None \<Rightarrow> ?buf ! i | Some v \<Rightarrow> v)"
      by (auto simp: slot_ok_def)
    from w ne obtain c where "deserialize_line E (?lines ! i) = Some (Inr c)" and "w = Some c"
      by (auto simp: deserialize_work_def split: option.splits sum.splits)
    with val show ?thesis by simp
  qed
  have "distinct (map fst dump)"
    by (simp add: dump build_dump_eq comp_def)
  moreover have "\<forall>i < length ?lines. \<exists>c. deserialize_line E (?lines ! i) = Some (Inr c)
           \<and> map_of dump i = (if c = [] then None else Some c)"
  proof (intro allI impI)
    fix i assume i: "i < length ?lines"
    from parsed[OF i] obtain c where c: "deserialize_line E (?lines ! i) = Some (Inr c)" "cs ! i = c"
      by blast
    with i len have "map_of dump i = (if c = [] then None else Some c)"
      by (simp add: dump build_dump_lookup)
    with c show "\<exists>c. deserialize_line E (?lines ! i) = Some (Inr c)
           \<and> map_of dump i = (if c = [] then None else Some c)" by blast
  qed
  moreover have "\<forall>i \<ge> length ?lines. map_of dump i = None"
    using len by (simp add: dump build_dump_lookup)
  ultimately show ?thesis using split_lines_spec[of content "[]"] by blast
qed

theorem ids_are_positions_among_nonempty_lines_witness:
  "deserialize_from_file env0 (''a=i:1'' @ [CHR 0x0A, CHR 0x0A] @ ''b=i:2'' @ [CHR 0x0A]) 2 4 [1, 0]
     = Some (Inr [(0, [(''a'', VInt 1)]), (1, [(''b'', VInt 2)])])
   \<and> distinct (map fst [(0 :: nat, [(''a'', VInt 1 :: (unit, unit) FonValue)]), (1, [(''b'', VInt 2)])])
   \<and> map_of [(0 :: nat, [(''a'', VInt 1 :: (unit, unit) FonValue)]), (1, [(''b'', VInt 2)])] 1
       = Some [(''b'', VInt 2)]
   \<and> map_of [(0 :: nat, [(''a'', VInt 1 :: (unit, unit) FonValue)]), (1, [(''b'', VInt 2)])] 2 = None"
proof -
  let ?content = "''a=i:1'' @ [CHR 0x0A, CHR 0x0A] @ ''b=i:2'' @ [CHR 0x0A]"
  let ?dump = "[(0 :: nat, [(''a'', VInt 1 :: (unit, unit) FonValue)]), (1, [(''b'', VInt 2)])]"
  have loaded: "deserialize_from_file env0 ?content 2 4 [1, 0] = Some (Inr ?dump)"
    by code_simp
  have valid: "valid_schedule (make_tasks (length (split_lines ?content [])) (resolve_threads 2 4)) [1, 0]"
    by code_simp
  have lines: "length (split_lines ?content []) = 2"
    "deserialize_line env0 (split_lines ?content [] ! 1) = Some (Inr [(''b'', VInt 2)])"
    by code_simp+
  from ids_are_positions_among_nonempty_lines [OF loaded valid]
  have "distinct (map fst ?dump)"
    and at: "\<forall>i < length (split_lines ?content []).
         \<exists>c. deserialize_line env0 (split_lines ?content [] ! i) = Some (Inr c)
           \<and> map_of ?dump i = (if c = [] then None else Some c)"
    and beyond: "\<forall>i \<ge> length (split_lines ?content []). map_of ?dump i = None"
    by blast+
  moreover from at lines have "map_of ?dump 1 = Some [(''b'', VInt 2)]"
    by (metis list.distinct(1) one_less_numeral_iff semiring_norm(76) option.inject sum.inject(2))
  moreover from beyond lines have "map_of ?dump 2 = None"
    by (metis order_refl)
  ultimately show ?thesis using loaded by blast
qed

section \<open>Properties of writing a record and reading it back\<close>

lemma digit_char_is_digit: "d < 10 \<Longrightarrow> is_digit (digit_char d)"
  by (simp add: is_digit_def digit_char_def)

lemma digit_char_value: "d < 10 \<Longrightarrow> of_char (digit_char d) - 48 = d"
  by (simp add: digit_char_def)

lemma to_chars_nat_digits: "\<forall>c \<in> set (to_chars_nat n). is_digit c"
proof (induction n rule: to_chars_nat.induct)
  case (1 n)
  show ?case
  proof (cases "n < 10")
    case True
    then show ?thesis by (subst to_chars_nat.simps) (simp add: digit_char_is_digit)
  next
    case False
    with 1 have "\<forall>c \<in> set (to_chars_nat (n div 10)). is_digit c" by simp
    moreover have "is_digit (digit_char (n mod 10))" by (simp add: digit_char_is_digit)
    ultimately show ?thesis using False by (subst to_chars_nat.simps) simp
  qed
qed

lemma to_chars_nat_nonempty: "to_chars_nat n \<noteq> []"
  by (subst to_chars_nat.simps) simp

lemma digits_value_snoc: "digits_value (ds @ [c]) = digits_value ds * 10 + (of_char c - 48)"
  by (simp add: digits_value_def)

lemma digits_value_to_chars: "digits_value (to_chars_nat n) = n"
proof (induction n rule: to_chars_nat.induct)
  case (1 n)
  show ?case
  proof (cases "n < 10")
    case True
    then show ?thesis by (subst to_chars_nat.simps) (simp add: digits_value_def digit_char_value)
  next
    case False
    with 1 have "digits_value (to_chars_nat (n div 10)) = n div 10" by simp
    then have "digits_value (to_chars_nat (n div 10) @ [digit_char (n mod 10)]) = n div 10 * 10 + n mod 10"
      by (simp add: digits_value_snoc digit_char_value)
    with False show ?thesis by (subst to_chars_nat.simps) simp
  qed
qed

lemma takeWhile_digits:
  assumes "\<forall>c \<in> set ds. is_digit c" "ends_number tail"
  shows "takeWhile is_digit (ds @ tail) = ds"
proof -
  have "takeWhile is_digit tail = []" using assms(2) by (cases tail) (simp_all add: ends_number_def)
  with assms(1) show ?thesis by (simp add: takeWhile_append2)
qed

lemma from_chars_unsigned_to_chars:
  assumes "n \<le> max_value" "ends_number tail"
  shows "from_chars_unsigned max_value (to_chars_nat n @ tail) = Inr (n, length (to_chars_nat n))"
  using assms takeWhile_digits[OF to_chars_nat_digits assms(2), of n]
  by (simp add: from_chars_unsigned_def Let_def to_chars_nat_nonempty digits_value_to_chars)

lemma hd_to_chars_nat_not_minus: "hd (to_chars_nat n) \<noteq> CHR ''-''"
proof -
  from to_chars_nat_nonempty[of n] have "hd (to_chars_nat n) \<in> set (to_chars_nat n)" by simp
  with to_chars_nat_digits[of n] have "is_digit (hd (to_chars_nat n))" by blast
  then show ?thesis by (auto simp: is_digit_def)
qed

lemma from_chars_signed_to_chars:
  assumes "min_value \<le> i" "i \<le> max_value" "ends_number tail"
  shows "from_chars_signed min_value max_value (to_chars_int i @ tail) = Inr (i, length (to_chars_int i))"
proof (cases "i < 0")
  case True
  then have "to_chars_int i @ tail = CHR ''-'' # to_chars_nat (nat (- i)) @ tail"
    by (simp add: to_chars_int_def)
  moreover have "takeWhile is_digit (to_chars_nat (nat (- i)) @ tail) = to_chars_nat (nat (- i))"
    by (rule takeWhile_digits[OF to_chars_nat_digits assms(3)])
  ultimately show ?thesis using True assms(1,2)
    by (simp add: from_chars_signed_def Let_def to_chars_nat_nonempty digits_value_to_chars to_chars_int_def)
next
  case False
  then have eq: "to_chars_int i = to_chars_nat (nat i)" by (simp add: to_chars_int_def)
  obtain c cs where cs: "to_chars_nat (nat i) = c # cs" using to_chars_nat_nonempty[of "nat i"]
    by (cases "to_chars_nat (nat i)") auto
  with hd_to_chars_nat_not_minus[of "nat i"] have c: "c \<noteq> CHR ''-''" by simp
  have tw: "takeWhile is_digit (to_chars_nat (nat i) @ tail) = to_chars_nat (nat i)"
    by (rule takeWhile_digits[OF to_chars_nat_digits assms(3)])
  have neg: "(case to_chars_nat (nat i) @ tail of [] \<Rightarrow> False | c # x \<Rightarrow> c = CHR ''-'') = False"
    using cs c by simp
  show ?thesis using False assms(1,2) tw
    unfolding from_chars_signed_def Let_def eq neg
    by (simp add: to_chars_nat_nonempty digits_value_to_chars)
qed

lemma parse_unsigned_serialize:
  assumes "ends_number tail"
  shows "parse_unsigned (serialize_unsigned w @ tail) = Inr (w, length (serialize_unsigned w))"
proof -
  define m :: nat where "m = 2 ^ LENGTH('a)"
  have "unat w < m" unfolding m_def by (rule unsigned_less)
  then have "unat w \<le> m - 1" by arith
  then have "unat w \<le> 2 ^ LENGTH('a) - 1" by (simp only: m_def)
  from from_chars_unsigned_to_chars[OF this assms] show ?thesis
    by (simp add: parse_unsigned_def serialize_unsigned_def)
qed

lemma parse_signed_serialize:
  assumes "ends_number tail"
  shows "parse_signed (serialize_signed w @ tail) = Inr (w, length (serialize_signed w))"
proof -
  have lo: "- (2 ^ (LENGTH('a) - 1)) \<le> sint w" by (rule sint_ge)
  have "sint w < 2 ^ (LENGTH('a) - 1)" by (rule sint_lt)
  then have hi: "sint w \<le> 2 ^ (LENGTH('a) - 1) - 1" by simp
  from from_chars_signed_to_chars[OF lo hi assms] show ?thesis
    by (simp add: parse_signed_def serialize_signed_def)
qed

lemma of_char_hex_digit: "d < 16 \<Longrightarrow> (of_char (hex_digit d) :: nat) = (if d < 10 then 48 + d else 55 + d)"
  by (simp add: hex_digit_def)

lemma hex_digit_not_special: "d < 16 \<Longrightarrow> hex_digit d \<noteq> CHR 0x22 \<and> hex_digit d \<noteq> CHR 0x5C"
proof -
  assume d: "d < 16"
  then have "(of_char (hex_digit d) :: nat) \<noteq> of_char (CHR 0x22) \<and> (of_char (hex_digit d) :: nat) \<noteq> of_char (CHR 0x5C)"
    by (simp only: of_char_hex_digit) (simp split: if_splits)
  then show ?thesis by auto
qed

lemma escape_char_cases:
  "escape_char c = [CHR 0x5C, CHR 0x22] \<and> c = CHR 0x22
   \<or> escape_char c = [CHR 0x5C, CHR 0x5C] \<and> c = CHR 0x5C
   \<or> (\<exists>x. escape_char c = [CHR 0x5C, x] \<and> x \<noteq> CHR 0x5C \<and> x \<noteq> CHR 0x22 \<and> unescape_char x = c
          \<and> c \<noteq> CHR 0x5C \<and> c \<noteq> CHR 0x22)
   \<or> (\<exists>h1 h2 h3 h4. escape_char c = [CHR 0x5C, CHR ''u'', h1, h2, h3, h4]
          \<and> h1 \<noteq> CHR 0x22 \<and> h2 \<noteq> CHR 0x22 \<and> h3 \<noteq> CHR 0x22 \<and> h4 \<noteq> CHR 0x22 \<and> h4 \<noteq> CHR 0x5C
          \<and> (of_char c :: nat) < 32 \<and> c \<noteq> CHR 0x0A \<and> c \<noteq> CHR 0x0D \<and> c \<noteq> CHR 0x09 \<and> c \<noteq> CHR 0x08 \<and> c \<noteq> CHR 0x0C)
   \<or> escape_char c = [c] \<and> c \<noteq> CHR 0x22 \<and> c \<noteq> CHR 0x5C"
proof (cases "c = CHR 0x22 \<or> c = CHR 0x5C \<or> c = CHR 0x0A \<or> c = CHR 0x0D \<or> c = CHR 0x09 \<or> c = CHR 0x08 \<or> c = CHR 0x0C")
  case True
  then show ?thesis by (auto simp: escape_char_def unescape_char_def)
next
  case named: False
  show ?thesis
  proof (cases "(of_char c :: nat) < 32")
    case True
    have h: "hex_digit (d mod 16) \<noteq> CHR 0x22 \<and> hex_digit (d mod 16) \<noteq> CHR 0x5C" for d
      by (rule hex_digit_not_special) simp
    have "escape_char c = u_escape (of_char c)" using named True by (simp add: escape_char_def)
    then have "escape_char c = [CHR 0x5C, CHR ''u'', hex_digit (of_char c div 4096 mod 16),
        hex_digit (of_char c div 256 mod 16), hex_digit (of_char c div 16 mod 16), hex_digit (of_char c mod 16)]"
      by (simp only: u_escape_def)
    with h named True show ?thesis by blast
  next
    case False
    with named have "escape_char c = [c]" by (simp add: escape_char_def)
    with named show ?thesis by simp
  qed
qed

lemma escape_scan:
  "scan_end_quote prev (escape_char c @ R) = length (escape_char c) + scan_end_quote (last (escape_char c)) R"
  using escape_char_cases[of c] by (elim disjE exE conjE) simp_all

lemma escape_last: "c \<noteq> CHR 0x5C \<Longrightarrow> last (escape_char c) \<noteq> CHR 0x5C"
  using escape_char_cases[of c] by (elim disjE exE conjE) simp_all

lemma scan_escaped:
  "(if s = [] then prev \<noteq> CHR 0x5C else last s \<noteq> CHR 0x5C)
     \<Longrightarrow> scan_end_quote prev (concat (map escape_char s) @ CHR 0x22 # T) = length (concat (map escape_char s))"
proof (induction s arbitrary: prev)
  case Nil
  then show ?case by simp
next
  case (Cons c s)
  have next_ok: "if s = [] then last (escape_char c) \<noteq> CHR 0x5C else last s \<noteq> CHR 0x5C"
  proof (cases "s = []")
    case True
    with Cons.prems have "c \<noteq> CHR 0x5C" by simp
    with True show ?thesis by (simp add: escape_last)
  next
    case False
    with Cons.prems show ?thesis by simp
  qed
  have "scan_end_quote prev (concat (map escape_char (c # s)) @ CHR 0x22 # T)
      = scan_end_quote prev (escape_char c @ (concat (map escape_char s) @ CHR 0x22 # T))" by simp
  also have "\<dots> = length (escape_char c) + scan_end_quote (last (escape_char c)) (concat (map escape_char s) @ CHR 0x22 # T)"
    by (rule escape_scan)
  also have "\<dots> = length (escape_char c) + length (concat (map escape_char s))"
    by (simp only: Cons.IH[OF next_ok])
  finally show ?case by simp
qed

lemma unescape_plain: "c \<noteq> CHR 0x5C \<Longrightarrow> unescape (c # R) = c # unescape R"
  by (cases R) simp_all

lemma unescape_no_backslash: "CHR 0x5C \<notin> set s \<Longrightarrow> unescape s = s"
  by (induction s rule: unescape.induct) auto

lemma unescape_escape_char:
  assumes "32 \<le> (of_char c :: nat) \<or> c = CHR 0x0A \<or> c = CHR 0x0D \<or> c = CHR 0x09 \<or> c = CHR 0x08 \<or> c = CHR 0x0C"
  shows "unescape (escape_char c @ R) = c # unescape R"
  using escape_char_cases[of c] assms
  by (elim disjE exE conjE) (simp_all add: unescape_plain unescape_char_def)

lemma unescape_escaped:
  "\<forall>c \<in> set s. 32 \<le> (of_char c :: nat) \<or> c = CHR 0x0A \<or> c = CHR 0x0D \<or> c = CHR 0x09 \<or> c = CHR 0x08 \<or> c = CHR 0x0C
     \<Longrightarrow> unescape (concat (map escape_char s)) = s"
  by (induction s) (simp_all add: unescape_escape_char)

lemma consume_comma_tail:
  "comma_tail T \<Longrightarrow> consume_comma (X @ T) (length X) = length X + (if T = [] then 0 else 1)"
  by (cases T) (simp_all add: consume_comma_def comma_tail_def nth_append)

lemma parse_string_serialize:
  assumes good: "round_trip_text s" and tail: "comma_tail T"
  shows "parse_string (serialize_string s @ T) = Inr (s, length (serialize_string s) + (if T = [] then 0 else 1))"
proof -
  let ?E = "concat (map escape_char s)"
  let ?d = "serialize_string s @ T"
  have d: "?d = CHR 0x22 # (?E @ CHR 0x22 # T)" by (simp add: serialize_string_def)
  have scan: "scan_end_quote (CHR 0x22) (?E @ CHR 0x22 # T) = length ?E"
    by (rule scan_escaped) (use good in \<open>auto simp: round_trip_text_def\<close>)
  have content: "take (length ?E) (drop 1 ?d) = ?E" by (simp add: d)
  have un: "unescape ?E = s"
    by (rule unescape_escaped) (use good in \<open>simp add: round_trip_text_def\<close>)
  have "consume_comma (serialize_string s @ T) (length (serialize_string s))
      = length (serialize_string s) + (if T = [] then 0 else 1)"
    by (rule consume_comma_tail[OF tail])
  moreover have "length (serialize_string s) = 1 + length ?E + 1" by (simp add: serialize_string_def)
  ultimately have cc: "consume_comma ?d (1 + length ?E + 1) = length (serialize_string s) + (if T = [] then 0 else 1)"
    by simp
  have res: "(if CHR 0x5C \<notin> set ?E then Inr (?E, k) else Inr (unescape ?E, k)) = (Inr (s, k) :: error + string \<times> nat)" for k
  proof (cases "CHR 0x5C \<in> set ?E")
    case True
    then show ?thesis by (simp only: un if_False not_True_eq_False)
  next
    case False
    with unescape_no_backslash[of ?E] un have "?E = s" by simp
    with False show ?thesis by (simp only: if_True not_False_eq_True)
  qed
  have "parse_string ?d = parse_string (CHR 0x22 # (?E @ CHR 0x22 # T))" by (simp only: d)
  also have "\<dots> =
      (if CHR 0x5C \<notin> set (take (1 + scan_end_quote (CHR 0x22) (?E @ CHR 0x22 # T) - 1) (drop 1 (CHR 0x22 # (?E @ CHR 0x22 # T))))
       then Inr (take (1 + scan_end_quote (CHR 0x22) (?E @ CHR 0x22 # T) - 1) (drop 1 (CHR 0x22 # (?E @ CHR 0x22 # T))),
                 consume_comma (CHR 0x22 # (?E @ CHR 0x22 # T)) (1 + scan_end_quote (CHR 0x22) (?E @ CHR 0x22 # T) + 1))
       else Inr (unescape (take (1 + scan_end_quote (CHR 0x22) (?E @ CHR 0x22 # T) - 1) (drop 1 (CHR 0x22 # (?E @ CHR 0x22 # T)))),
                 consume_comma (CHR 0x22 # (?E @ CHR 0x22 # T)) (1 + scan_end_quote (CHR 0x22) (?E @ CHR 0x22 # T) + 1)))"
    by (simp add: parse_string_def Let_def del: set_concat)
  also have "take (1 + scan_end_quote (CHR 0x22) (?E @ CHR 0x22 # T) - 1) (drop 1 (CHR 0x22 # (?E @ CHR 0x22 # T))) = ?E"
    by (simp only: scan) simp
  also have "(if CHR 0x5C \<notin> set ?E
       then Inr (?E, consume_comma (CHR 0x22 # (?E @ CHR 0x22 # T)) (1 + scan_end_quote (CHR 0x22) (?E @ CHR 0x22 # T) + 1))
       else Inr (unescape ?E, consume_comma (CHR 0x22 # (?E @ CHR 0x22 # T)) (1 + scan_end_quote (CHR 0x22) (?E @ CHR 0x22 # T) + 1)))
     = (Inr (s, consume_comma (CHR 0x22 # (?E @ CHR 0x22 # T)) (1 + scan_end_quote (CHR 0x22) (?E @ CHR 0x22 # T) + 1))
          :: error + string \<times> nat)"
    by (rule res)
  also have "consume_comma (CHR 0x22 # (?E @ CHR 0x22 # T)) (1 + scan_end_quote (CHR 0x22) (?E @ CHR 0x22 # T) + 1)
     = length (serialize_string s) + (if T = [] then 0 else 1)"
    using cc by (simp only: scan d)
  finally show ?thesis .
qed

lemma number_text_unsigned: "number_text (serialize_unsigned w)"
  using to_chars_nat_digits[of "unat w"]
  by (simp add: number_text_def serialize_unsigned_def to_chars_nat_nonempty)

lemma number_text_signed: "number_text (serialize_signed w)"
  using to_chars_nat_digits[of "nat (sint w)"] to_chars_nat_digits[of "nat (- sint w)"]
  by (simp add: number_text_def serialize_signed_def to_chars_int_def to_chars_nat_nonempty)

lemma number_text_bool: "number_text (serialize_bool v)"
  by (simp add: number_text_def serialize_bool_def is_digit_def)

lemma number_char:
  assumes "is_digit c \<or> c = CHR ''-''"
  shows "c \<noteq> CHR 0x22" "c \<noteq> CHR ''[''" "c \<noteq> CHR '']''" "c \<noteq> CHR '',''" "\<not> is_value_end c"
  using assms by (auto simp: is_digit_def is_value_end_def)

lemma comma_tail_ends_number: "comma_tail T \<Longrightarrow> ends_number T"
  by (cases T) (auto simp: comma_tail_def ends_number_def is_digit_def)

lemma join_comma_False:
  "join_comma False f xs = (case xs of [] \<Rightarrow> [] | y # ys \<Rightarrow> CHR '','' # join_comma True f xs)"
  by (cases xs) simp_all

lemma skip_comma_join: "skip_comma (join_comma False f xs) = join_comma True f xs"
  by (cases xs) (simp_all add: skip_comma_def)

lemma comma_tail_join: "comma_tail (join_comma False f xs @ T) \<longleftrightarrow> (xs = [] \<longrightarrow> comma_tail T)"
  by (cases xs) (simp_all add: comma_tail_def)

lemma number_value_text: "number_text t \<Longrightarrow> value_text t"
proof -
  assume nt: "number_text t"
  then have ne: "t \<noteq> []" by (simp add: number_text_def)
  then have "hd t \<in> set t" by simp
  with nt have "is_digit (hd t) \<or> hd t = CHR ''-''" by (simp add: number_text_def)
  then have "hd t \<noteq> CHR ''[''" by (rule number_char)
  moreover have "\<forall>c \<in> set t. \<not> is_value_end c"
    using nt number_char(5) by (auto simp: number_text_def)
  ultimately show ?thesis using ne by (simp add: value_text_def)
qed

lemma number_element_text: "number_text t \<Longrightarrow> element_text t"
proof -
  assume nt: "number_text t"
  have "\<not> is_value_end c \<and> c \<noteq> CHR 0x22 \<and> c \<noteq> CHR ''[''" if "c \<in> set t" for c
  proof -
    from nt that have d: "is_digit c \<or> c = CHR ''-''" by (simp add: number_text_def)
    from number_char(5)[OF d] number_char(1)[OF d] number_char(2)[OF d] show ?thesis by simp
  qed
  then have "\<forall>c \<in> set t. \<not> is_value_end c \<and> c \<noteq> CHR 0x22 \<and> c \<noteq> CHR ''[''" by blast
  moreover from nt have "t \<noteq> []" by (simp add: number_text_def)
  ultimately show ?thesis unfolding element_text_def by blast
qed

lemma element_text_char:
  assumes "element_text t" "c \<in> set t"
  shows "c \<noteq> CHR 0x22 \<and> c \<noteq> CHR ''['' \<and> c \<noteq> CHR '']''"
proof -
  from assms have "\<not> is_value_end c" "c \<noteq> CHR 0x22" "c \<noteq> CHR ''[''"
    unfolding element_text_def by blast+
  moreover from \<open>\<not> is_value_end c\<close> have "c \<noteq> CHR '']''" unfolding is_value_end_def by blast
  ultimately show ?thesis by blast
qed

lemma join_comma_clean:
  assumes "\<forall>x \<in> set xs. element_text (f x)"
  shows "\<forall>c \<in> set (join_comma b f xs). c \<noteq> CHR 0x22 \<and> c \<noteq> CHR ''['' \<and> c \<noteq> CHR '']''"
  using assms
proof (induction xs arbitrary: b)
  case Nil
  show ?case by simp
next
  case (Cons x xs)
  show ?case
  proof
    fix c assume "c \<in> set (join_comma b f (x # xs))"
    then consider "c = CHR '',''" | "c \<in> set (f x)" | "c \<in> set (join_comma False f xs)"
      by (auto split: if_splits)
    then show "c \<noteq> CHR 0x22 \<and> c \<noteq> CHR ''['' \<and> c \<noteq> CHR '']''"
    proof cases
      case 1
      then show ?thesis by simp
    next
      case 2
      from Cons.prems have "element_text (f x)" by simp
      from element_text_char[OF this 2] show ?thesis .
    next
      case 3
      from Cons.prems have "\<forall>x \<in> set xs. element_text (f x)" by simp
      from Cons.IH[OF this, of False] 3 show ?thesis by blast
    qed
  qed
qed

lemma elements_text: "elements_round_trip f p xs \<Longrightarrow> \<forall>x \<in> set xs. element_text (f x)"
  by (induction xs) simp_all

lemma closing_bracket_loop:
  assumes "\<forall>c \<in> set body. c \<noteq> CHR 0x22 \<and> c \<noteq> CHR ''['' \<and> c \<noteq> CHR '']''"
  shows "find_closing_bracket_loop (body @ CHR '']'' # T) i prev 1 False = Inr (i + length body)"
  using assms by (induction body arbitrary: i prev) simp_all

lemma closing_bracket_array:
  assumes "\<forall>c \<in> set body. c \<noteq> CHR 0x22 \<and> c \<noteq> CHR ''['' \<and> c \<noteq> CHR '']''"
  shows "find_closing_bracket (CHR ''['' # body @ CHR '']'' # T) = Inr (1 + length body)"
  using closing_bracket_loop[OF assms, of T 1 "Some (CHR ''['')"]
  by (simp add: find_closing_bracket_def)

lemma parse_array_loop_join:
  assumes "elements_round_trip f p xs"
  shows "parse_array_loop p (join_comma True f xs) acc = Some (Inr (acc @ xs))"
  using assms
proof (induction xs arbitrary: acc)
  case Nil
  then show ?case by (subst parse_array_loop.simps) simp
next
  case (Cons x xs)
  let ?rest = "join_comma False f xs"
  from Cons.prems have ne: "f x \<noteq> []" and p: "p (f x @ ?rest) = Inr (x, length (f x))"
    and rest: "elements_round_trip f p xs"
    by (simp_all add: element_text_def)
  have "parse_array_loop p (join_comma True f (x # xs)) acc
      = parse_array_loop p (f x @ ?rest) acc" by simp
  also have "\<dots> = parse_array_loop p (skip_comma (drop (length (f x)) (f x @ ?rest))) (acc @ [x])"
    by (subst parse_array_loop.simps) (simp add: ne p)
  also have "\<dots> = parse_array_loop p (join_comma True f xs) (acc @ [x])"
    by (simp add: skip_comma_join)
  also have "\<dots> = Some (Inr ((acc @ [x]) @ xs))"
    by (rule Cons.IH[OF rest])
  finally show ?case by simp
qed

lemma parse_array_serialize:
  assumes elems: "elements_round_trip f p xs"
    and tail: "comma_tail T"
  shows "parse_array p (serialize_array f xs @ T)
           = Some (Inr (xs, length (serialize_array f xs) + (if T = [] then 0 else 1)))"
proof -
  let ?body = "join_comma True f xs"
  let ?d = "serialize_array f xs @ T"
  have d: "?d = CHR ''['' # ?body @ CHR '']'' # T" by (simp add: serialize_array_def)
  have chars: "\<forall>c \<in> set ?body. c \<noteq> CHR 0x22 \<and> c \<noteq> CHR ''['' \<and> c \<noteq> CHR '']''"
    by (rule join_comma_clean[OF elements_text[OF elems]])
  have close: "find_closing_bracket ?d = Inr (1 + length ?body)"
    unfolding d by (rule closing_bracket_array[OF chars])
  have content: "take (1 + length ?body - 1) (drop 1 ?d) = ?body" by (simp add: d)
  have loop: "parse_array_loop p ?body [] = Some (Inr xs)"
    using parse_array_loop_join[OF elems, of "[]"] by simp
  have "consume_comma (serialize_array f xs @ T) (length (serialize_array f xs))
      = length (serialize_array f xs) + (if T = [] then 0 else 1)"
    by (rule consume_comma_tail[OF tail])
  moreover have "length (serialize_array f xs) = 1 + length ?body + 1" by (simp add: serialize_array_def)
  ultimately have cc: "consume_comma ?d (1 + length ?body + 1) = length (serialize_array f xs) + (if T = [] then 0 else 1)"
    by simp
  have "parse_array p ?d =
      (case find_closing_bracket ?d of
         Inl e \<Rightarrow> Some (Inl e)
       | Inr close \<Rightarrow>
           (case parse_array_loop p (take (close - 1) (drop 1 ?d)) [] of
              None \<Rightarrow> None
            | Some (Inl e) \<Rightarrow> Some (Inl e)
            | Some (Inr result) \<Rightarrow> Some (Inr (result, consume_comma ?d (close + 1)))))"
    unfolding parse_array_def by (subst (1) d) simp
  also have "\<dots> = Some (Inr (xs, consume_comma ?d (1 + length ?body + 1)))"
    by (simp only: close content loop sum.case option.case)
  finally show ?thesis by (simp only: cc)
qed

lemma number_elements:
  assumes "\<And>x. number_text (f x)"
    and "\<And>x T. ends_number T \<Longrightarrow> p (f x @ T) = Inr (x, length (f x))"
  shows "elements_round_trip f p xs"
proof (induction xs)
  case Nil
  show ?case by simp
next
  case (Cons x xs)
  have "comma_tail (join_comma False f xs)" by (cases xs) (simp_all add: comma_tail_def)
  then have "ends_number (join_comma False f xs)" by (rule comma_tail_ends_number)
  from assms(2)[OF this] number_element_text[OF assms(1)] Cons.IH show ?case by simp
qed

lemma unsigned_elems: "elements_round_trip serialize_unsigned parse_unsigned xs"
  by (rule number_elements) (simp_all add: number_text_unsigned parse_unsigned_serialize)

lemma signed_elems: "elements_round_trip serialize_signed parse_signed xs"
  by (rule number_elements) (simp_all add: number_text_signed parse_signed_serialize)

lemma z85_encode_length: "length z85_encode = 85"
  by (simp add: z85_encode_def)

lemma z85_encode_clean: "CHR 0x22 \<notin> set z85_encode \<and> CHR 0x5C \<notin> set z85_encode"
  by (simp add: z85_encode_def)

lemma z85_digit_clean:
  assumes "k < 85"
  shows "z85_encode ! k \<noteq> CHR 0x22 \<and> z85_encode ! k \<noteq> CHR 0x5C"
proof -
  from assms have "z85_encode ! k \<in> set z85_encode" by (simp add: z85_encode_length)
  with z85_encode_clean show ?thesis by metis
qed

lemma unat_mod_85: "unat ((v :: 32 word) mod 85) < 85"
  by (simp add: unat_mod_distrib)

lemma unat_top_digit: "unat ((v :: 32 word) div 85 div 85 div 85 div 85) < 85"
proof -
  have "unat v < 2 ^ 32" using unsigned_less[of v, where 'a = nat] by simp
  then have "unat v div 85 div 85 div 85 div 85 < 85" by simp
  then show ?thesis by (simp add: unat_div_distrib)
qed

lemma encode_group_clean: "CHR 0x22 \<notin> set (encode_group v) \<and> CHR 0x5C \<notin> set (encode_group v)"
proof -
  have "c \<noteq> CHR 0x22 \<and> c \<noteq> CHR 0x5C" if "c \<in> set (encode_group v)" for c
  proof -
    from that have "c = z85_encode ! unat (v div 85 div 85 div 85 div 85)
      \<or> c = z85_encode ! unat (v div 85 div 85 div 85 mod 85)
      \<or> c = z85_encode ! unat (v div 85 div 85 mod 85)
      \<or> c = z85_encode ! unat (v div 85 mod 85)
      \<or> c = z85_encode ! unat (v mod 85)"
      by (simp add: encode_group_def Let_def)
    then obtain k where "k < 85" "c = z85_encode ! k"
      using unat_mod_85 unat_top_digit by blast
    then show ?thesis using z85_digit_clean by simp
  qed
  then show ?thesis by blast
qed

lemma marker_clean:
  assumes "0 < p" "p < 4"
  shows "char_of (48 + p :: nat) \<noteq> CHR 0x22 \<and> char_of (48 + p :: nat) \<noteq> CHR 0x5C"
proof -
  have "(of_char (char_of (48 + p :: nat) :: char) :: nat) = 48 + p"
    using assms by simp
  then have "(of_char (char_of (48 + p :: nat) :: char) :: nat) \<noteq> of_char (CHR 0x22)"
    and "(of_char (char_of (48 + p :: nat) :: char) :: nat) \<noteq> of_char (CHR 0x5C)"
    using assms by simp_all
  then show ?thesis by metis
qed

lemma pack_clean:
  assumes "raw_encoded r = []"
  shows "CHR 0x22 \<notin> set (raw_encoded (pack r)) \<and> CHR 0x5C \<notin> set (raw_encoded (pack r))"
proof (cases "raw_data r = []")
  case True
  with assms show ?thesis by (simp add: pack_def)
next
  case False
  define n where "n = length (raw_data r)"
  define blocks where "blocks = concat (map (\<lambda>i. encode_group (full_block (raw_data r) (i * 4))) [0..<n div 4])"
  define last_group where "last_group = encode_group (partial_block (raw_data r) (n div 4 * 4) (n mod 4))"
  define marker where "marker = char_of (48 + (4 - n mod 4) mod 4)"
  have packed: "raw_encoded (pack r) = blocks @ (if n mod 4 > 0 then last_group @ [marker] else [])"
    using assms False by (simp add: pack_def Let_def n_def blocks_def last_group_def marker_def)
  have b: "CHR 0x22 \<notin> set blocks \<and> CHR 0x5C \<notin> set blocks"
    unfolding blocks_def using encode_group_clean by auto
  have g: "CHR 0x22 \<notin> set last_group \<and> CHR 0x5C \<notin> set last_group"
    unfolding last_group_def by (rule encode_group_clean)
  have m: "marker \<noteq> CHR 0x22 \<and> marker \<noteq> CHR 0x5C" if "n mod 4 > 0"
  proof -
    have "n mod 4 < 4" by simp
    with that have "0 < (4 - n mod 4) mod 4" "(4 - n mod 4) mod 4 < 4" by simp_all
    then show ?thesis unfolding marker_def by (rule marker_clean)
  qed
  show ?thesis
  proof (cases "n mod 4 > 0")
    case True
    with packed b g m show ?thesis by auto
  next
    case False
    with packed b show ?thesis by simp
  qed
qed

lemma scan_plain:
  assumes "CHR 0x22 \<notin> set e" "CHR 0x5C \<notin> set e" "prev \<noteq> CHR 0x5C"
  shows "scan_end_quote prev (e @ CHR 0x22 # T) = length e"
  using assms
proof (induction e arbitrary: prev)
  case Nil
  then show ?case by simp
next
  case (Cons c e)
  from Cons.prems have c: "c \<noteq> CHR 0x22" "c \<noteq> CHR 0x5C"
    and e: "CHR 0x22 \<notin> set e" "CHR 0x5C \<notin> set e" by auto
  from Cons.IH[OF e c(2)] c(1) show ?case by simp
qed

lemma parse_string_plain:
  assumes clean: "CHR 0x22 \<notin> set e" "CHR 0x5C \<notin> set e" and tail: "comma_tail T"
  shows "parse_string (CHR 0x22 # e @ CHR 0x22 # T) = Inr (e, length e + 2 + (if T = [] then 0 else 1))"
proof -
  have scan: "scan_end_quote (CHR 0x22) (e @ CHR 0x22 # T) = length e"
    by (rule scan_plain[OF clean]) simp
  have "consume_comma ((CHR 0x22 # e @ [CHR 0x22]) @ T) (length (CHR 0x22 # e @ [CHR 0x22]))
      = length (CHR 0x22 # e @ [CHR 0x22]) + (if T = [] then 0 else 1)"
    by (rule consume_comma_tail[OF tail])
  then have cc: "consume_comma (CHR 0x22 # e @ CHR 0x22 # T) (length e + 2) = length e + 2 + (if T = [] then 0 else 1)"
    by simp
  show ?thesis
    using clean(2) cc by (simp add: parse_string_def Let_def scan)
qed

lemmas type_chars = TYPE_BYTE_def TYPE_SHORT_def TYPE_INT_def TYPE_UINT_def TYPE_LONG_def
  TYPE_ULONG_def TYPE_FLOAT_def TYPE_DOUBLE_def TYPE_BOOL_def TYPE_STRING_def TYPE_RAW_def

lemma find_value_end_text:
  assumes "value_text num" "comma_tail T"
  shows "find_value_end (num @ T) = length num"
proof -
  have "\<forall>c \<in> set num. \<not> is_value_end c"
    using assms(1) by (simp add: value_text_def)
  moreover have "takeWhile (\<lambda>c. \<not> is_value_end c) T = []"
    using assms(2) by (cases T) (simp_all add: comma_tail_def is_value_end_def)
  ultimately show ?thesis by (simp add: find_value_end_def takeWhile_append2)
qed

lemma parse_value_text:
  assumes vt: "value_text num" and tail: "comma_tail T"
    and tc: "tc \<noteq> TYPE_STRING" "tc \<noteq> TYPE_RAW"
  shows "parse_value E (num @ T) tc =
     (let consumed = length num + (if T = [] then 0 else 1) in
      if tc = TYPE_BYTE then scalar_value VByte consumed (parse_unsigned num)
      else if tc = TYPE_SHORT then scalar_value VShort consumed (parse_signed num)
      else if tc = TYPE_INT then scalar_value VInt consumed (parse_signed num)
      else if tc = TYPE_UINT then scalar_value VUInt consumed (parse_unsigned num)
      else if tc = TYPE_LONG then scalar_value VLong consumed (parse_signed num)
      else if tc = TYPE_ULONG then scalar_value VULong consumed (parse_unsigned num)
      else if tc = TYPE_FLOAT then scalar_value VFloat consumed (parse_float E num)
      else if tc = TYPE_DOUBLE then scalar_value VDouble consumed (parse_double E num)
      else if tc = TYPE_BOOL then Some (Inr (VBool (hd num \<noteq> CHR ''0''), consumed))
      else Some (Inl UnknownType))"
proof -
  from vt obtain c0 cs where shape: "num = c0 # cs" by (cases num) (auto simp: value_text_def)
  with vt have c0: "c0 \<noteq> CHR ''[''" by (simp add: value_text_def)
  have fe: "find_value_end (c0 # cs @ T) = length num"
    using find_value_end_text[OF vt tail] by (simp add: shape)
  have cc: "consume_comma (c0 # cs @ T) (length num) = length num + (if T = [] then 0 else 1)"
    using consume_comma_tail[OF tail, of num] by (simp add: shape)
  have tk: "take (length num) (c0 # cs @ T) = num" by (simp add: shape)
  show ?thesis
    unfolding parse_value_def shape append_Cons list.case Let_def
    using c0 tc
    by (simp only: fe cc tk if_False shape[symmetric] list.sel) (simp add: shape)
qed

lemma parse_value_number:
  assumes nt: "number_text num" and tail: "comma_tail T"
    and tc: "tc \<noteq> TYPE_STRING" "tc \<noteq> TYPE_RAW"
  shows "parse_value E (num @ T) tc =
     (let consumed = length num + (if T = [] then 0 else 1) in
      if tc = TYPE_BYTE then scalar_value VByte consumed (parse_unsigned num)
      else if tc = TYPE_SHORT then scalar_value VShort consumed (parse_signed num)
      else if tc = TYPE_INT then scalar_value VInt consumed (parse_signed num)
      else if tc = TYPE_UINT then scalar_value VUInt consumed (parse_unsigned num)
      else if tc = TYPE_LONG then scalar_value VLong consumed (parse_signed num)
      else if tc = TYPE_ULONG then scalar_value VULong consumed (parse_unsigned num)
      else if tc = TYPE_FLOAT then scalar_value VFloat consumed (parse_float E num)
      else if tc = TYPE_DOUBLE then scalar_value VDouble consumed (parse_double E num)
      else if tc = TYPE_BOOL then Some (Inr (VBool (hd num \<noteq> CHR ''0''), consumed))
      else Some (Inl UnknownType))"
  by (rule parse_value_text[OF number_value_text[OF nt] tail tc])

lemma parse_value_bracket:
  assumes "d \<noteq> []" "hd d = CHR ''[''"
  shows "parse_value E d tc =
     (if tc = TYPE_BYTE then array_value VByteArray (parse_array parse_unsigned d)
      else if tc = TYPE_SHORT then array_value VShortArray (parse_array parse_signed d)
      else if tc = TYPE_INT then array_value VIntArray (parse_array parse_signed d)
      else if tc = TYPE_UINT then array_value VUIntArray (parse_array parse_unsigned d)
      else if tc = TYPE_LONG then array_value VLongArray (parse_array parse_signed d)
      else if tc = TYPE_ULONG then array_value VULongArray (parse_array parse_unsigned d)
      else if tc = TYPE_FLOAT then array_value VFloatArray (parse_array (parse_float E) d)
      else if tc = TYPE_DOUBLE then array_value VDoubleArray (parse_array (parse_double E) d)
      else Some (Inl UnsupportedArrayType))"
  using assms by (cases d) (simp_all add: parse_value_def)

lemma parse_value_quoted:
  assumes "d \<noteq> []" "hd d \<noteq> CHR ''[''"
  shows "parse_value E d TYPE_STRING =
     (case parse_string d of
        Inl e \<Rightarrow> Some (Inl e)
      | Inr sc \<Rightarrow> Some (Inr (VString (fst sc), snd sc)))"
  using assms by (cases d) (simp_all add: parse_value_def)

lemma parse_value_raw:
  assumes "d \<noteq> []" "hd d \<noteq> CHR ''[''"
  shows "parse_value E d TYPE_RAW =
     (case parse_string d of
        Inl e \<Rightarrow> Some (Inl e)
      | Inr sc \<Rightarrow>
          if deserialize_raw_unpack E then
            (case unpack (RawData_of_encoded (fst sc)) of
               (raw, Some e) \<Rightarrow> Some (Inl e)
             | (raw, None) \<Rightarrow> Some (Inr (VRaw (Some raw), snd sc)))
          else Some (Inr (VRaw (Some (RawData_of_encoded (fst sc))), snd sc)))"
  using assms by (cases d) (simp_all add: parse_value_def type_chars split: sum.splits)

lemma raw_value:
  assumes good: "round_trip_blob (deserialize_raw_unpack E) r" and tail: "comma_tail T"
  shows "parse_value E (serialize_raw (Some r) @ T) TYPE_RAW
    = Some (Inr (read_back E (VRaw (Some r)), length (serialize_raw (Some r)) + (if T = [] then 0 else 1)))"
proof -
  let ?e = "raw_encoded (pack r)"
  from good have clean: "CHR 0x22 \<notin> set ?e" "CHR 0x5C \<notin> set ?e"
    by (simp_all add: round_trip_blob_def)
  have d: "serialize_raw (Some r) @ T = CHR 0x22 # ?e @ CHR 0x22 # T"
    by (simp add: serialize_raw_def)
  have parsed: "parse_string (serialize_raw (Some r) @ T) = Inr (?e, length ?e + 2 + (if T = [] then 0 else 1))"
    unfolding d by (rule parse_string_plain[OF clean tail])
  have head: "serialize_raw (Some r) @ T \<noteq> []" "hd (serialize_raw (Some r) @ T) \<noteq> CHR ''[''"
    by (simp_all add: d)
  have len: "length (serialize_raw (Some r)) = length ?e + 2" by (simp add: serialize_raw_def)
  show ?thesis
  proof (cases "deserialize_raw_unpack E")
    case True
    with good have "unpack (RawData_of_encoded ?e) = (RawData_of_data (blob_bytes r), None)"
      by (simp add: round_trip_blob_def)
    with True show ?thesis
      by (simp only: parse_value_raw[OF head] parsed sum.case fst_conv snd_conv len) simp
  next
    case False
    then show ?thesis
      by (simp only: parse_value_raw[OF head] parsed sum.case fst_conv snd_conv len) simp
  qed
qed

lemma ends_number_Nil: "ends_number []"
  by (simp add: ends_number_def)

lemma parse_unsigned_text: "parse_unsigned (serialize_unsigned w) = Inr (w, length (serialize_unsigned w))"
  using parse_unsigned_serialize[OF ends_number_Nil, of w] by simp

lemma parse_signed_text: "parse_signed (serialize_signed w) = Inr (w, length (serialize_signed w))"
  using parse_signed_serialize[OF ends_number_Nil, of w] by simp

lemma serialize_array_head: "serialize_array f xs @ T \<noteq> [] \<and> hd (serialize_array f xs @ T) = CHR ''[''"
  by (simp add: serialize_array_def)

lemma serialize_string_head: "serialize_string s @ T \<noteq> [] \<and> hd (serialize_string s @ T) \<noteq> CHR ''[''"
  by (simp add: serialize_string_def)

lemma unsigned_array_value:
  assumes "comma_tail T"
  shows "array_value mk (parse_array parse_unsigned (serialize_array serialize_unsigned xs @ T))
     = Some (Inr (mk xs, length (serialize_array serialize_unsigned xs) + (if T = [] then 0 else 1)))"
  by (simp only: parse_array_serialize[OF unsigned_elems assms]) (simp add: array_value_def)

lemma signed_array_value:
  assumes "comma_tail T"
  shows "array_value mk (parse_array parse_signed (serialize_array serialize_signed xs @ T))
     = Some (Inr (mk xs, length (serialize_array serialize_signed xs) + (if T = [] then 0 else 1)))"
  by (simp only: parse_array_serialize[OF signed_elems assms]) (simp add: array_value_def)

lemma elements_array_value:
  assumes "elements_round_trip f p xs" "comma_tail T"
  shows "array_value mk (parse_array p (serialize_array f xs @ T))
     = Some (Inr (mk xs, length (serialize_array f xs) + (if T = [] then 0 else 1)))"
  by (simp only: parse_array_serialize[OF assms]) (simp add: array_value_def)

lemma scalar_value_round_trip:
  assumes "scalar_round_trip f p x"
  shows "scalar_value mk consumed (p (f x)) = Some (Inr (mk x, consumed))"
  using assms by (auto simp: scalar_round_trip_def scalar_value_def split: sum.splits)

lemma value_round_trip:
  assumes good: "round_trip_value E v" and tail: "comma_tail T"
  shows "parse_value E (serialize_value E v @ T) (get_type_char v)
    = Some (Inr (read_back E v, length (serialize_value E v) + (if T = [] then 0 else 1)))"
proof (cases v)
  case (VByte w)
  show ?thesis unfolding VByte
    by (simp add: parse_value_number[OF number_text_unsigned tail] type_chars scalar_value_def parse_unsigned_text)
next
  case (VShort w)
  show ?thesis unfolding VShort
    by (simp add: parse_value_number[OF number_text_signed tail] type_chars scalar_value_def parse_signed_text)
next
  case (VInt w)
  show ?thesis unfolding VInt
    by (simp add: parse_value_number[OF number_text_signed tail] type_chars scalar_value_def parse_signed_text)
next
  case (VUInt w)
  show ?thesis unfolding VUInt
    by (simp add: parse_value_number[OF number_text_unsigned tail] type_chars scalar_value_def parse_unsigned_text)
next
  case (VLong w)
  show ?thesis unfolding VLong
    by (simp add: parse_value_number[OF number_text_signed tail] type_chars scalar_value_def parse_signed_text)
next
  case (VULong w)
  show ?thesis unfolding VULong
    by (simp add: parse_value_number[OF number_text_unsigned tail] type_chars scalar_value_def parse_unsigned_text)
next
  case (VFloat x)
  with good have rt: "scalar_round_trip (to_chars_float E) (parse_float E) x" by simp
  then have vt: "value_text (to_chars_float E x)" by (simp add: scalar_round_trip_def)
  show ?thesis unfolding VFloat
    by (simp add: parse_value_text[OF vt tail] type_chars scalar_value_round_trip[OF rt])
next
  case (VDouble x)
  with good have rt: "scalar_round_trip (to_chars_double E) (parse_double E) x" by simp
  then have vt: "value_text (to_chars_double E x)" by (simp add: scalar_round_trip_def)
  show ?thesis unfolding VDouble
    by (simp add: parse_value_text[OF vt tail] type_chars scalar_value_round_trip[OF rt])
next
  case (VBool b)
  show ?thesis unfolding VBool
    by (simp add: parse_value_number[OF number_text_bool tail] type_chars) (simp add: serialize_bool_def)
next
  case (VString s)
  with good have "round_trip_text s" by simp
  from parse_string_serialize[OF this tail] show ?thesis unfolding VString
    using serialize_string_head[of s T] by (simp add: parse_value_quoted)
next
  case (VRaw p)
  with good obtain r where p: "p = Some r" by (cases p) auto
  from good have "round_trip_blob (deserialize_raw_unpack E) r"
    unfolding VRaw p by simp
  from raw_value[OF this tail] show ?thesis unfolding VRaw p by simp
next
  case (VByteArray xs)
  show ?thesis unfolding VByteArray using serialize_array_head[of serialize_unsigned xs T]
    by (simp add: parse_value_bracket unsigned_array_value[OF tail])
next
  case (VShortArray xs)
  show ?thesis unfolding VShortArray using serialize_array_head[of serialize_signed xs T]
    by (simp add: parse_value_bracket type_chars signed_array_value[OF tail])
next
  case (VIntArray xs)
  show ?thesis unfolding VIntArray using serialize_array_head[of serialize_signed xs T]
    by (simp add: parse_value_bracket type_chars signed_array_value[OF tail])
next
  case (VUIntArray xs)
  show ?thesis unfolding VUIntArray using serialize_array_head[of serialize_unsigned xs T]
    by (simp add: parse_value_bracket type_chars unsigned_array_value[OF tail])
next
  case (VLongArray xs)
  show ?thesis unfolding VLongArray using serialize_array_head[of serialize_signed xs T]
    by (simp add: parse_value_bracket type_chars signed_array_value[OF tail])
next
  case (VULongArray xs)
  show ?thesis unfolding VULongArray using serialize_array_head[of serialize_unsigned xs T]
    by (simp add: parse_value_bracket type_chars unsigned_array_value[OF tail])
next
  case (VFloatArray xs)
  with good have elems: "elements_round_trip (to_chars_float E) (parse_float E) xs" by simp
  show ?thesis unfolding VFloatArray using serialize_array_head[of "to_chars_float E" xs T]
    by (simp add: parse_value_bracket type_chars elements_array_value[OF elems tail])
next
  case (VDoubleArray xs)
  with good have elems: "elements_round_trip (to_chars_double E) (parse_double E) xs" by simp
  show ?thesis unfolding VDoubleArray using serialize_array_head[of "to_chars_double E" xs T]
    by (simp add: parse_value_bracket type_chars elements_array_value[OF elems tail])
qed (use good in simp_all)

lemma find_char_key:
  assumes "CHR ''='' \<notin> set k"
  shows "find_char (CHR ''='') (k @ CHR ''='' # R) = Some (length k)"
proof -
  have "takeWhile (\<lambda>x. x \<noteq> CHR ''='') (k @ CHR ''='' # R) = k"
    using assms by (induction k) auto
  then show ?thesis by (simp add: find_char_def)
qed

lemma loop_entry:
  assumes "find_char (CHR ''='') line = Some p" "p + 2 < length line" "line ! (p + 2) = CHR '':''"
  shows "deserialize_loop E line acc =
      (case parse_value E (drop (p + 3) line) (line ! (p + 1)) of
         None \<Rightarrow> None
       | Some (Inl e) \<Rightarrow> Some (Inl e)
       | Some (Inr vc) \<Rightarrow>
           deserialize_loop E (skip_comma (drop (snd vc) (drop (p + 3) line)))
             (collection_add (take p line) (fst vc) acc))"
proof -
  from assms(2) have ne: "line \<noteq> []" by auto
  from assms(2,3) have ok: "\<not> (length (drop (p + 1) line) < 2 \<or> drop (p + 1) line ! 1 \<noteq> CHR '':'')"
    by (simp add: add.commute)
  show ?thesis
    by (subst deserialize_loop.simps) (simp only: ne assms(1) ok if_False option.case)
qed

lemma entry_step:
  assumes key: "CHR ''='' \<notin> set k" and val: "round_trip_value E v" and tail: "entry_tail T"
  shows "deserialize_loop E (serialize_entry E (k, v) @ T) acc
           = deserialize_loop E (tl T) (collection_add k (read_back E v) acc)"
proof -
  let ?V = "serialize_value E v"
  let ?tc = "get_type_char v"
  let ?line = "serialize_entry E (k, v) @ T"
  have line: "?line = k @ CHR ''='' # ?tc # CHR '':'' # ?V @ T"
    by (simp add: serialize_entry_def)
  have ne: "?line \<noteq> []" by (simp add: line)
  have eq: "find_char (CHR ''='') ?line = Some (length k)"
    unfolding line by (rule find_char_key[OF key])
  have colon: "length k + 2 < length ?line" "?line ! (length k + 2) = CHR '':''"
    by (simp_all add: line nth_append)
  have value_text: "drop (length k + 3) ?line = ?V @ T" by (simp add: line)
  have tag: "?line ! (length k + 1) = ?tc" by (simp add: line nth_append)
  have key_text: "take (length k) ?line = k" by (simp add: line)
  have ct: "comma_tail T" using tail by (cases T) (simp_all add: entry_tail_def comma_tail_def)
  have parsed: "parse_value E (?V @ T) ?tc
      = Some (Inr (read_back E v, length ?V + (if T = [] then 0 else 1)))"
    by (rule value_round_trip[OF val ct])
  have rest: "skip_comma (drop (length ?V + (if T = [] then 0 else 1)) (?V @ T)) = tl T"
  proof (cases T)
    case Nil
    then show ?thesis by (simp add: skip_comma_def)
  next
    case (Cons c T')
    with tail obtain c' cs where "c = CHR '',''" "T' = c' # cs" "c' \<noteq> CHR '',''"
      by (cases T') (auto simp: entry_tail_def)
    with Cons show ?thesis by (simp add: skip_comma_def)
  qed
  have "deserialize_loop E ?line acc =
      (case parse_value E (drop (length k + 3) ?line) (?line ! (length k + 1)) of
         None \<Rightarrow> None
       | Some (Inl e) \<Rightarrow> Some (Inl e)
       | Some (Inr vc) \<Rightarrow>
           deserialize_loop E (skip_comma (drop (snd vc) (drop (length k + 3) ?line)))
             (collection_add (take (length k) ?line) (fst vc) acc))"
    by (rule loop_entry[OF eq colon])
  also have "\<dots> = deserialize_loop E (tl T) (collection_add k (read_back E v) acc)"
    by (simp only: value_text tag key_text parsed option.case sum.case fst_conv snd_conv rest)
  finally show ?thesis .
qed

lemma entry_head:
  assumes "\<not> starts_with_comma k"
  shows "serialize_entry E (k, v) @ R \<noteq> [] \<and> hd (serialize_entry E (k, v) @ R) \<noteq> CHR '',''"
  using assms by (cases k) (simp_all add: serialize_entry_def starts_with_comma_def)

lemma entries_tail:
  assumes "\<forall>kv \<in> set c. \<not> starts_with_comma (fst kv)"
  shows "entry_tail (join_comma False (serialize_entry E) c)"
proof (cases c)
  case Nil
  then show ?thesis by (simp add: entry_tail_def)
next
  case (Cons kv c')
  obtain k v where kv: "kv = (k, v)" by (cases kv)
  with Cons assms have "\<not> starts_with_comma k" by simp
  from entry_head[OF this, of E v "join_comma False (serialize_entry E) c'"]
  show ?thesis unfolding Cons kv
    by (cases "serialize_entry E (k, v) @ join_comma False (serialize_entry E) c'")
       (simp_all add: entry_tail_def)
qed

lemma line_round_trip:
  assumes "\<forall>kv \<in> set c. CHR ''='' \<notin> set (fst kv) \<and> round_trip_value E (snd kv)"
    and "\<forall>kv \<in> set (tl c). \<not> starts_with_comma (fst kv)"
  shows "deserialize_loop E (join_comma True (serialize_entry E) c) acc
           = Some (Inr (fold (\<lambda>kv. collection_add (fst kv) (read_back E (snd kv))) c acc))"
  using assms
proof (induction c arbitrary: acc)
  case Nil
  show ?case by (subst deserialize_loop.simps) simp
next
  case (Cons kv c)
  obtain k v where kv: "kv = (k, v)" by (cases kv)
  let ?T = "join_comma False (serialize_entry E) c"
  from Cons.prems kv have key: "CHR ''='' \<notin> set k" and val: "round_trip_value E v" by simp_all
  have tail: "entry_tail ?T" by (rule entries_tail) (use Cons.prems(2) in simp)
  have later: "\<forall>kv \<in> set (tl c). \<not> starts_with_comma (fst kv)"
    using Cons.prems(2) by (cases c) simp_all
  have "deserialize_loop E (join_comma True (serialize_entry E) (kv # c)) acc
      = deserialize_loop E (serialize_entry E (k, v) @ ?T) acc" by (simp add: kv)
  also have "\<dots> = deserialize_loop E (tl ?T) (collection_add k (read_back E v) acc)"
    by (rule entry_step[OF key val tail])
  also have "tl ?T = join_comma True (serialize_entry E) c"
    by (cases c) simp_all
  also have "deserialize_loop E (join_comma True (serialize_entry E) c) (collection_add k (read_back E v) acc)
      = Some (Inr (fold (\<lambda>kv. collection_add (fst kv) (read_back E (snd kv))) c
                    (collection_add k (read_back E v) acc)))"
    by (rule Cons.IH[OF _ later]) (use Cons.prems(1) in simp)
  finally show ?case by (simp add: kv)
qed

lemma fold_add_distinct:
  "distinct (map fst (acc @ c)) \<Longrightarrow> fold (\<lambda>kv. collection_add (fst kv) (snd kv)) c acc = acc @ c"
proof (induction c arbitrary: acc)
  case Nil
  then show ?case by simp
next
  case (Cons kv c)
  from Cons.prems have "fst kv \<notin> fst ` set acc" by auto
  then have "collection_add (fst kv) (snd kv) acc = acc @ [kv]"
    by (simp add: collection_add_def update_fresh)
  moreover from Cons.prems have "distinct (map fst ((acc @ [kv]) @ c))" by simp
  ultimately show ?case using Cons.IH[of "acc @ [kv]"] by simp
qed

lemma fold_add_read_back:
  "fold (\<lambda>kv. collection_add (fst kv) (read_back E (snd kv))) c acc
     = fold (\<lambda>kv. collection_add (fst kv) (snd kv)) (read_back_all E c) acc"
  by (simp add: read_back_all_def fold_map comp_def)

text \<open>
  Claim C1, as stated, fails. A key that contains \<open>=\<close> is written as it is and read
  back as a shorter key with an ill-formed rest; a key that starts with a comma loses
  the comma when it is not the first; a boolean array and a text array are written by
  the serializer and refused by the parser; a text with the control byte 1 comes back
  as the five characters \<open>u0001\<close>; a text that ends with a backslash swallows the
  entries after it; a null raw blob comes back as an empty blob; a raw blob whose text
  holds a quote comes back with the text cut at the quote; the raw blob of the four
  bytes 0, 0, 0, 1 comes back as the text \<open>00001\<close>, which does not decode, and with the
  eager unpacking switched on the line that holds it is refused.
\<close>

theorem round_trip_fails:
  "deserialize_line env0 (serialize_to_string env0 [(''a=b'', VInt 1)]) = Some (Inl InvalidFormat)
   \<and> deserialize_line env0 (serialize_to_string env0 [(''a'', VInt 1), ('',b'', VInt 2)])
       = Some (Inr [(''a'', VInt 1), (''b'', VInt 2)])
   \<and> deserialize_line env0 (serialize_to_string env0 [(''k'', VBoolArray [True, False])])
       = Some (Inl UnsupportedArrayType)
   \<and> deserialize_line env0 (serialize_to_string env0 [(''k'', VStringArray [''a''])])
       = Some (Inl UnsupportedArrayType)
   \<and> deserialize_line env0 (serialize_to_string env0 [(''k'', VString [CHR 0x01])])
       = Some (Inr [(''k'', VString ''u0001'')])
   \<and> deserialize_line env0 (serialize_to_string env0 [(''k'', VString [CHR 0x5C]), (''n'', VInt 1)])
       = Some (Inr [(''k'', VString ([CHR 0x5C, CHR 0x22] @ '',n=i:1''))])
   \<and> deserialize_line env0 (serialize_to_string env0 [(''k'', VRaw None)])
       = Some (Inr [(''k'', VRaw (Some (RawData_of_encoded [])))])
   \<and> deserialize_line env0
        (serialize_to_string env0 [(''k'', VRaw (Some (RawData_of_encoded (''a'' @ [CHR 0x22] @ ''b''))))])
       = Some (Inr [(''k'', VRaw (Some (RawData_of_encoded ''a'')))])
   \<and> deserialize_line env0 (serialize_to_string env0 [(''k'', VRaw (Some (RawData_of_data [0, 0, 0, 1])))])
       = Some (Inr [(''k'', VRaw (Some (RawData_of_encoded ''00001'')))])
   \<and> unpack (RawData_of_encoded ''00001'') = (RawData_of_encoded ''00001'', Some LengthError)
   \<and> deserialize_line env1 (serialize_to_string env1 [(''k'', VRaw (Some (RawData_of_data [0, 0, 0, 1])))])
       = Some (Inl LengthError)"
  by code_simp

text \<open>
  A blob that holds bytes only is read back as it was, when the eager unpacking is
  switched on and its text decodes, and as the serializer leaves it otherwise.
\<close>

lemma read_back_of_bytes:
  assumes "raw_encoded r = []"
  shows "read_back E (VRaw (Some r)) = VRaw (Some (if deserialize_raw_unpack E then r else pack r))"
proof -
  from assms have "unpack r = (r, None)" by (simp add: unpack_def)
  then have "RawData_of_data (blob_bytes r) = r"
    using assms by (cases r) (simp add: blob_bytes_def RawData_of_data_def)
  moreover have "raw_data (pack r) = []" using assms by (auto simp: pack_def Let_def)
  then have "RawData_of_encoded (raw_encoded (pack r)) = pack r"
    by (cases "pack r") (simp add: RawData_of_encoded_def)
  ultimately show ?thesis by simp
qed

text \<open>
  Claim C1, amended. Take a record with distinct keys, no key holding \<open>=\<close> and no key
  but the first starting with a comma, each value being an integer of any of the six
  widths (any value of the width), a boolean, a text without control bytes other than
  the five named ones and not ending in a backslash (the empty text included), an
  array of integers of any of the six widths (the empty array included), a
  floating-point value or an array of such values whose texts the standard library
  reads back as the values, or a raw blob that is not null and whose text has no quote
  or backslash and decodes to its bytes. Parsing the serialized line yields the
  entries of the record with the same keys, variants and values; a raw blob comes
  back holding the text that the serializer left in the original or, with the eager
  unpacking switched on, its bytes.
\<close>

theorem round_trip_of_covered_records:
  assumes "distinct (map fst c)"
    and "round_trip_keys c"
    and "\<forall>kv \<in> set c. round_trip_value E (snd kv)"
  shows "deserialize_line E (serialize_to_string E c) = Some (Inr (read_back_all E c))"
proof -
  have "map fst (read_back_all E c) = map fst c"
    by (simp add: read_back_all_def comp_def)
  with assms(1) have "distinct (map fst ([] @ read_back_all E c))" by simp
  from fold_add_distinct[OF this]
  have folded: "fold (\<lambda>kv. collection_add (fst kv) (read_back E (snd kv))) c [] = read_back_all E c"
    by (simp add: fold_add_read_back)
  from assms(2,3) have "\<forall>kv \<in> set c. CHR ''='' \<notin> set (fst kv) \<and> round_trip_value E (snd kv)"
    and "\<forall>kv \<in> set (tl c). \<not> starts_with_comma (fst kv)"
    by (simp_all add: round_trip_keys_def)
  from line_round_trip[OF this, of "[]"] folded show ?thesis
    by (simp add: deserialize_line_def serialize_to_string_def)
qed

theorem round_trip_of_covered_records_witness:
  "serialize_to_string env0 [(''id'', VInt 7), (''name'', VString ''a,b''), (''tags'', VIntArray [1, 2, 3])]
     = ''id=i:7,name=s:'' @ [CHR 0x22] @ ''a,b'' @ [CHR 0x22] @ '',tags=i:[1,2,3]''
   \<and> deserialize_line env0
        (serialize_to_string env0
          [('',id'', VInt 7), (''name'', VString ''a,b''), (''tags'', VIntArray [1, 2, 3]),
           (''least'', VLong (- 9223372036854775808)), (''most'', VULong 18446744073709551615),
           (''none'', VByteArray []), (''empty'', VString []),
           (''quoted'', VString [CHR 0x22, CHR 0x5C, CHR 0x0A, CHR ''='']),
           (''blob'', VRaw (Some (RawData_of_data [1, 2, 3, 4, 5]))),
           (''text'', VRaw (Some (RawData_of_encoded ''00001'')))])
       = Some (Inr [('',id'', VInt 7), (''name'', VString ''a,b''), (''tags'', VIntArray [1, 2, 3]),
           (''least'', VLong (- 9223372036854775808)), (''most'', VULong 18446744073709551615),
           (''none'', VByteArray []), (''empty'', VString []),
           (''quoted'', VString [CHR 0x22, CHR 0x5C, CHR 0x0A, CHR ''='']),
           (''blob'', VRaw (Some (RawData_of_encoded ''0rJua1POJ53''))),
           (''text'', VRaw (Some (RawData_of_encoded ''00001'')))])
   \<and> deserialize_line env1
        (serialize_to_string env1
          [(''x'', VFloat 15), (''ys'', VDoubleArray [1, - 2]), (''zs'', VFloatArray []),
           (''blob'', VRaw (Some (RawData_of_data [1, 2, 3, 4, 5]))), (''n'', VInt 7)])
       = Some (Inr [(''x'', VFloat 15), (''ys'', VDoubleArray [1, - 2]), (''zs'', VFloatArray []),
           (''blob'', VRaw (Some (RawData_of_data [1, 2, 3, 4, 5]))), (''n'', VInt 7)])"
proof -
  let ?c = "[('',id'', VInt 7), (''name'', VString ''a,b''), (''tags'', VIntArray [1, 2, 3]),
           (''least'', VLong (- 9223372036854775808)), (''most'', VULong 18446744073709551615),
           (''none'', VByteArray []), (''empty'', VString []),
           (''quoted'', VString [CHR 0x22, CHR 0x5C, CHR 0x0A, CHR ''='']),
           (''blob'', VRaw (Some (RawData_of_data [1, 2, 3, 4, 5]))),
           (''text'', VRaw (Some (RawData_of_encoded ''00001'')))] :: (unit, unit) FonCollection"
  let ?c1 = "[(''x'', VFloat 15), (''ys'', VDoubleArray [1, - 2]), (''zs'', VFloatArray []),
           (''blob'', VRaw (Some (RawData_of_data [1, 2, 3, 4, 5]))), (''n'', VInt 7)] :: (int, int) FonCollection"
  have keys: "distinct (map fst ?c)" "distinct (map fst ?c1)"
    by simp_all
  have shape: "round_trip_keys ?c" "round_trip_keys ?c1"
    by (simp_all add: round_trip_keys_def starts_with_comma_def)
  have blob: "round_trip_blob False (RawData_of_data [1, 2, 3, 4, 5])"
    by code_simp
  have packed_text: "round_trip_blob False (RawData_of_encoded ''00001'')"
    by code_simp
  have blob1: "round_trip_blob True (RawData_of_data [1, 2, 3, 4, 5])"
    by code_simp
  have x: "scalar_round_trip (to_chars_float env1) (parse_float env1) 15"
    by code_simp
  have ys: "elements_round_trip (to_chars_double env1) (parse_double env1) [1, - 2]"
    by code_simp
  have flags: "deserialize_raw_unpack env0 = False" "deserialize_raw_unpack env1 = True"
    by (simp_all add: env0_def env1_def)
  have covered: "\<forall>kv \<in> set ?c. round_trip_value env0 (snd kv)"
    by (simp add: round_trip_text_def flags blob packed_text)
  have covered1: "\<forall>kv \<in> set ?c1. round_trip_value env1 (snd kv)"
    by (simp add: flags blob1 x ys del: elements_round_trip.simps(2))
  have packed: "raw_encoded (pack (RawData_of_data [1, 2, 3, 4, 5])) = ''0rJua1POJ53''"
    "raw_encoded (pack (RawData_of_encoded ''00001'')) = ''00001''"
    by code_simp+
  have bytes: "blob_bytes (RawData_of_data [1, 2, 3, 4, 5]) = [1, 2, 3, 4, 5]"
    by code_simp
  have written: "serialize_to_string env0 [(''id'', VInt 7), (''name'', VString ''a,b''), (''tags'', VIntArray [1, 2, 3])]
     = ''id=i:7,name=s:'' @ [CHR 0x22] @ ''a,b'' @ [CHR 0x22] @ '',tags=i:[1,2,3]''"
    by code_simp
  from round_trip_of_covered_records [OF keys(1) shape(1) covered]
  have "deserialize_line env0 (serialize_to_string env0 ?c) = Some (Inr (read_back_all env0 ?c))" .
  moreover have "read_back_all env0 ?c
      = [('',id'', VInt 7), (''name'', VString ''a,b''), (''tags'', VIntArray [1, 2, 3]),
           (''least'', VLong (- 9223372036854775808)), (''most'', VULong 18446744073709551615),
           (''none'', VByteArray []), (''empty'', VString []),
           (''quoted'', VString [CHR 0x22, CHR 0x5C, CHR 0x0A, CHR ''='']),
           (''blob'', VRaw (Some (RawData_of_encoded ''0rJua1POJ53''))),
           (''text'', VRaw (Some (RawData_of_encoded ''00001'')))]"
    by (simp add: read_back_all_def flags packed)
  moreover from round_trip_of_covered_records [OF keys(2) shape(2) covered1]
  have "deserialize_line env1 (serialize_to_string env1 ?c1) = Some (Inr (read_back_all env1 ?c1))" .
  moreover have "read_back_all env1 ?c1 = ?c1"
    by (simp add: read_back_all_def flags bytes)
  ultimately show ?thesis using written by simp
qed

end
